theory Spec2Isabelle
  imports Main "HOL-Library.AList"
begin

section \<open>Values\<close>

text \<open>
  Artifacts are the structured values that stages exchange (\<^verbatim>\<open>unknown\<close> in the source):
  scalars, ordered sequences and string-keyed mappings. An object lists its properties
  in the order in which JavaScript enumerates them; \<open>JUndefined\<close> is JavaScript's
  \<^verbatim>\<open>undefined\<close>, the value of a missing map entry or property. Numbers are integers
  here.
\<close>

datatype jv =
    JUndefined
  | JNull
  | JBool bool
  | JNum int
  | JStr string
  | JArr "jv list"
  | JObj "(string \<times> jv) list"

text \<open>\<^verbatim>\<open>!v\<close> is \<open>\<not> truthy v\<close>.\<close>

fun truthy :: "jv \<Rightarrow> bool" where
  "truthy JUndefined = False"
| "truthy JNull = False"
| "truthy (JBool b) = b"
| "truthy (JNum n) = (n \<noteq> 0)"
| "truthy (JStr s) = (s \<noteq> [])"
| "truthy (JArr xs) = True"
| "truthy (JObj ps) = True"

text \<open>
  \<^verbatim>\<open>v?.p\<close> for a property name \<open>p\<close> that no built-in prototype defines (the names read
  below are of this kind): \<^verbatim>\<open>undefined\<close> on \<^verbatim>\<open>undefined\<close> and \<^verbatim>\<open>null\<close>, the own
  property of an object, \<^verbatim>\<open>undefined\<close> on every other value.
\<close>

fun opt_prop :: "jv \<Rightarrow> string \<Rightarrow> jv" where
  "opt_prop (JObj ps) p = (case map_of ps p of Some v \<Rightarrow> v | None \<Rightarrow> JUndefined)"
| "opt_prop v p = JUndefined"

text \<open>Decimal digits of a number, as a template literal prints it.\<close>

fun string_of_nat :: "nat \<Rightarrow> string" where
  "string_of_nat n =
     (if n < 10 then [char_of (48 + n)]
      else string_of_nat (n div 10) @ [char_of (48 + n mod 10)])"

definition string_of_int :: "int \<Rightarrow> string" where
  "string_of_int i = (if i < 0 then CHR ''-'' # string_of_nat (nat (- i)) else string_of_nat (nat i))"

declare string_of_nat.simps [simp del]

text \<open>\<^verbatim>\<open>xs.join(sep)\<close> on an array of strings.\<close>

fun join :: "string \<Rightarrow> string list \<Rightarrow> string" where
  "join sep [] = []"
| "join sep [x] = x"
| "join sep (x # y # ys) = x @ sep @ join sep (y # ys)"

section \<open>Gate check results (studio/utils/cross\_checks.ts)\<close>

datatype severity = SevError | SevWarning | SevInfo

text \<open>
  \<^verbatim>\<open>GateCheckResult\<close>: fields \<^verbatim>\<open>name\<close>, \<^verbatim>\<open>passed\<close>, \<^verbatim>\<open>severity\<close>, \<^verbatim>\<open>message\<close> and the
  optional \<^verbatim>\<open>details\<close>.
\<close>

record GateCheckResult =
  gc_name :: string
  passed :: bool
  severity :: severity
  message :: string
  details :: "jv option"

section \<open>The gate summary (studio/agents/reviewer\_verifier.ts)\<close>

text \<open>\<^verbatim>\<open>GateReport['summary']\<close>; its field \<^verbatim>\<open>passed\<close> is \<open>passedCount\<close> here.\<close>

record GateSummary =
  totalChecks :: nat
  passedCount :: nat
  warnings :: nat
  errors :: nat
  overallStatus :: string

definition computeSummary :: "GateCheckResult list \<Rightarrow> GateSummary" where
  "computeSummary checks =
     (let passed' = length (filter (\<lambda>c. passed c) checks);
          warnings' = length (filter (\<lambda>c. \<not> passed c \<and> severity c = SevWarning) checks);
          errors' = length (filter (\<lambda>c. \<not> passed c \<and> severity c = SevError) checks);
          overallStatus' =
            (if errors' > 0 then ''failed''
             else if warnings' > 0 then ''passed-with-warnings''
             else ''passed'')
      in \<lparr> totalChecks = length checks, passedCount = passed', warnings = warnings',
           errors = errors', overallStatus = overallStatus' \<rparr>)"

section \<open>Pipeline stages (studio/agents/registry.ts)\<close>

text \<open>
  A raised exception. The string is what the source reads off a caught value:
  \<^verbatim>\<open>error instanceof Error ? error.message : String(error)\<close>.
\<close>

datatype fault = Fault string

text \<open>
  \<^verbatim>\<open>Map<string, unknown>\<close>: the entries in insertion order. \<^verbatim>\<open>set\<close> on a key that is
  present replaces its value in place, on a new key it appends; \<^verbatim>\<open>get\<close> on a missing key
  is \<^verbatim>\<open>undefined\<close>.
\<close>

type_synonym outputs = "(string \<times> jv) list"

definition outputs_get :: "outputs \<Rightarrow> string \<Rightarrow> jv" where
  "outputs_get outs k = (case map_of outs k of Some v \<Rightarrow> v | None \<Rightarrow> JUndefined)"

definition outputs_set :: "outputs \<Rightarrow> string \<Rightarrow> jv \<Rightarrow> outputs" where
  "outputs_set outs k v = AList.update k v outs"

text \<open>
  \<^verbatim>\<open>GateCheckFn = (ctx: GateContext) => GateCheckResult[]\<close>, where the context holds the
  outputs map only. A check may raise.
\<close>

type_synonym GateCheckFn = "outputs \<Rightarrow> fault + GateCheckResult list"

section \<open>The quality gate checks (studio/utils/cross\_checks.ts)\<close>

text \<open>
  Each check opens with a guard on the artifacts it reads and returns a single result
  there. The rest of its body, which inspects the artifacts it found, is the parameter
  \<open>rest\<close>: it is applied to the artifacts that the check has read, and what is
  proved of a check holds whatever the rest does.
\<close>

definition apiUseCaseCoverageCheck :: "(jv \<Rightarrow> jv \<Rightarrow> fault + GateCheckResult list) \<Rightarrow> GateCheckFn" where
  "apiUseCaseCoverageCheck rest outs =
     (let designBrief = outputs_get outs ''requirements-structurer'';
          apiContract = outputs_get outs ''api-contract''
      in if \<not> truthy (opt_prop designBrief ''useCases'') \<or> \<not> truthy (opt_prop apiContract ''paths'')
         then Inr [\<lparr> gc_name = ''api-usecase-coverage'', passed = True, severity = SevInfo,
                     message = ''Insufficient data for use case coverage check'',
                     details = None \<rparr>]
         else rest designBrief apiContract)"

definition componentDomainAlignmentCheck :: "(jv \<Rightarrow> jv \<Rightarrow> fault + GateCheckResult list) \<Rightarrow> GateCheckFn" where
  "componentDomainAlignmentCheck rest outs =
     (let domainModel = outputs_get outs ''domain-model'';
          componentMap = outputs_get outs ''system-architect''
      in if \<not> truthy (opt_prop domainModel ''entities'') \<or> \<not> truthy (opt_prop componentMap ''components'')
         then Inr [\<lparr> gc_name = ''component-domain-alignment'', passed = True, severity = SevInfo,
                     message = ''Insufficient data for domain alignment check'',
                     details = None \<rparr>]
         else rest domainModel componentMap)"

definition adrCompletenessCheck :: "(jv \<Rightarrow> fault + GateCheckResult list) \<Rightarrow> GateCheckFn" where
  "adrCompletenessCheck rest outs =
     (let architectData = outputs_get outs ''system-architect''
      in if \<not> truthy (opt_prop architectData ''adrs'')
         then Inr [\<lparr> gc_name = ''adr-completeness'', passed = False, severity = SevError,
                     message = ''No ADRs found in architecture output'',
                     details = None \<rparr>]
         else rest architectData)"

definition promptCoverageCheck :: "(jv \<Rightarrow> fault + GateCheckResult list) \<Rightarrow> GateCheckFn" where
  "promptCoverageCheck rest outs =
     (let promptPacks = outputs_get outs ''prompt-pack-designer''
      in if \<not> truthy (opt_prop promptPacks ''packs'')
         then Inr [\<lparr> gc_name = ''prompt-coverage'', passed = False, severity = SevError,
                     message = ''No prompt packs generated'',
                     details = None \<rparr>]
         else rest promptPacks)"

definition scaffoldIntegrityCheck :: "(jv \<Rightarrow> fault + GateCheckResult list) \<Rightarrow> GateCheckFn" where
  "scaffoldIntegrityCheck rest outs =
     (let buildPlan = outputs_get outs ''scaffold-builder''
      in if \<not> truthy (opt_prop buildPlan ''files'')
         then Inr [\<lparr> gc_name = ''scaffold-integrity'', passed = False, severity = SevError,
                     message = ''No scaffold files generated'',
                     details = None \<rparr>]
         else rest buildPlan)"

section \<open>Pipeline stages, continued\<close>

record PipelineStage =
  agentId :: string
  dependsOn :: "string list"
  gateChecks :: "GateCheckFn list option"

section \<open>The scheduler (PipelineOrchestrator.topologicalSort)\<close>

text \<open>
  The in-degree counters are JavaScript numbers: subtracting from \<^verbatim>\<open>undefined\<close> (a
  missing map entry) gives \<^verbatim>\<open>NaN\<close>, which is never \<^verbatim>\<open>=== 0\<close>.
\<close>

datatype jsnum = Num int | NaN

type_synonym inDegreeMap = "(string \<times> jsnum) list"
type_synonym graphMap = "(string \<times> string list) list"

text \<open>\<^verbatim>\<open>if (!graph.has(dep)) graph.set(dep, []); graph.get(dep)!.push(stage.agentId)\<close>\<close>

definition graph_push :: "string \<Rightarrow> string \<Rightarrow> graphMap \<Rightarrow> graphMap" where
  "graph_push agent dep graph =
     (case map_of graph dep of
        None \<Rightarrow> AList.update dep [agent] graph
      | Some ds \<Rightarrow> AList.update dep (ds @ [agent]) graph)"

text \<open>The body of the first loop (build graph), for one stage.\<close>

definition build_graph_step :: "PipelineStage \<Rightarrow> inDegreeMap \<times> graphMap \<Rightarrow> inDegreeMap \<times> graphMap" where
  "build_graph_step stage st =
     (AList.update (agentId stage) (Num (int (length (dependsOn stage)))) (fst st),
      fold (graph_push (agentId stage)) (dependsOn stage) (snd st))"

text \<open>\<^verbatim>\<open>inDegree.get(depId)! - 1\<close>\<close>

definition decrement :: "jsnum option \<Rightarrow> jsnum" where
  "decrement d = (case d of Some (Num n) \<Rightarrow> Num (n - 1) | Some NaN \<Rightarrow> NaN | None \<Rightarrow> NaN)"

text \<open>
  The body of the inner loop over the dependents of a dequeued stage: decrement the
  dependent's in-degree and, when it reaches zero, enqueue the first declared stage with
  that id (\<^verbatim>\<open>this.stages.find\<close>), if there is one.
\<close>

definition visit_dependent ::
  "PipelineStage list \<Rightarrow> string \<Rightarrow> inDegreeMap \<times> PipelineStage list \<Rightarrow> inDegreeMap \<times> PipelineStage list" where
  "visit_dependent stages depId st =
     (let deg = decrement (map_of (fst st) depId);
          inDegree' = AList.update depId deg (fst st)
      in if deg = Num 0
         then (case find (\<lambda>s. agentId s = depId) stages of
                 Some depStage \<Rightarrow> (inDegree', snd st @ [depStage])
               | None \<Rightarrow> (inDegree', snd st))
         else (inDegree', snd st))"

text \<open>\<^verbatim>\<open>graph.get(stage.agentId) || []\<close>\<close>

definition dependents :: "graphMap \<Rightarrow> string \<Rightarrow> string list" where
  "dependents graph a = (case map_of graph a of Some ds \<Rightarrow> ds | None \<Rightarrow> [])"

text \<open>What is left of the counters and the queue: the measure of the queue loop.\<close>

fun pending :: "jsnum \<Rightarrow> nat" where
  "pending (Num n) = nat n"
| "pending NaN = 0"

definition work :: "inDegreeMap \<times> PipelineStage list \<Rightarrow> nat" where
  "work st = sum_list (map (\<lambda>e. pending (snd e)) (fst st)) + length (snd st)"

text \<open>
  The queue loop: \<^verbatim>\<open>while (queue.length > 0) { stage = queue.shift(); sorted.push(stage); ... }\<close>.
\<close>

function kahn_loop ::
  "PipelineStage list \<Rightarrow> graphMap \<Rightarrow> inDegreeMap \<Rightarrow> PipelineStage list \<Rightarrow> PipelineStage list
     \<Rightarrow> PipelineStage list" where
  "kahn_loop stages graph inDegree [] sorted' = sorted'"
| "kahn_loop stages graph inDegree (stage # queue) sorted' =
     (case fold (visit_dependent stages) (dependents graph (agentId stage)) (inDegree, queue) of
        (inDegree', queue') \<Rightarrow> kahn_loop stages graph inDegree' queue' (sorted' @ [stage]))"
  by pat_completeness auto
termination
proof (relation "measure (\<lambda>(stages, graph, inDegree, queue, sorted'). work (inDegree, queue))")
  show "wf (measure (\<lambda>(stages, graph, inDegree, queue, sorted'). work (inDegree, queue)))"
    by simp
next
  fix stages :: "PipelineStage list" and graph :: graphMap and inDegree :: inDegreeMap
    and stage :: PipelineStage and queue sorted' :: "PipelineStage list"
    and inDegree' queue'
  assume p: "(inDegree', queue') =
    fold (visit_dependent stages) (dependents graph (agentId stage)) (inDegree, queue)"
  have upd: "sum_list (map (\<lambda>e. pending (snd e)) (AList.update k v al))
        + pending (case map_of al k of Some d \<Rightarrow> d | None \<Rightarrow> NaN)
      = sum_list (map (\<lambda>e. pending (snd e)) al) + pending v"
    for k v and al :: inDegreeMap
    by (induction al) auto
  have step: "work (visit_dependent stages d st) \<le> work st" for d st
  proof -
    let ?old = "case map_of (fst st) d of Some n \<Rightarrow> n | None \<Rightarrow> NaN"
    let ?deg = "decrement (map_of (fst st) d)"
    have u: "sum_list (map (\<lambda>e. pending (snd e)) (AList.update d ?deg (fst st))) + pending ?old
        = sum_list (map (\<lambda>e. pending (snd e)) (fst st)) + pending ?deg"
      by (rule upd)
    have le: "pending ?deg \<le> pending ?old"
      by (auto simp: decrement_def split: option.splits jsnum.splits)
    have z: "?deg = Num 0 \<Longrightarrow> pending ?deg + 1 \<le> pending ?old"
      by (auto simp: decrement_def split: option.splits jsnum.splits)
    show ?thesis
      using u le z
      by (auto simp: visit_dependent_def work_def Let_def split: option.splits)
  qed
  have folded: "work (fold (visit_dependent stages) ds st) \<le> work st" for ds st
  proof (induction ds arbitrary: st)
    case Nil
    show ?case by simp
  next
    case (Cons d ds)
    have "work (fold (visit_dependent stages) ds (visit_dependent stages d st))
        \<le> work (visit_dependent stages d st)"
      by (rule Cons.IH)
    also have "\<dots> \<le> work st" by (rule step)
    finally show ?case by simp
  qed
  have "work (inDegree', queue') \<le> work (inDegree, queue)"
    using folded[of "dependents graph (agentId stage)" "(inDegree, queue)"] p by simp
  also have "\<dots> < work (inDegree, stage # queue)"
    by (simp add: work_def)
  finally show "((stages, graph, inDegree', queue', sorted' @ [stage]),
      (stages, graph, inDegree, stage # queue, sorted'))
    \<in> measure (\<lambda>(stages, graph, inDegree, queue, sorted'). work (inDegree, queue))"
    by simp
qed

definition topologicalSort :: "PipelineStage list \<Rightarrow> PipelineStage list" where
  "topologicalSort stages =
     (case fold build_graph_step stages ([], []) of
        (inDegree, graph) \<Rightarrow>
          kahn_loop stages graph inDegree
            (filter (\<lambda>stage. length (dependsOn stage) = 0) stages) [])"

section \<open>Content hashes (studio/utils/hash.ts)\<close>

text \<open>
  \<^verbatim>\<open>JSON.stringify(data, null, 0)\<close>: the compact text of a value. In an array
  \<^verbatim>\<open>undefined\<close> prints as \<^verbatim>\<open>null\<close>; in an object a property whose value is
  \<^verbatim>\<open>undefined\<close> is left out; at the top \<^verbatim>\<open>undefined\<close> has no text at all.
\<close>

definition hex_digit :: "nat \<Rightarrow> char" where
  "hex_digit n = (if n < 10 then char_of (48 + n) else char_of (87 + n))"

definition json_escape :: "char \<Rightarrow> string" where
  "json_escape c =
     (if c = CHR 0x22 then [CHR 0x5C, CHR 0x22]
      else if c = CHR 0x5C then [CHR 0x5C, CHR 0x5C]
      else if c = CHR 0x08 then [CHR 0x5C, CHR ''b'']
      else if c = CHR 0x09 then [CHR 0x5C, CHR ''t'']
      else if c = CHR 0x0A then [CHR 0x5C, CHR ''n'']
      else if c = CHR 0x0C then [CHR 0x5C, CHR ''f'']
      else if c = CHR 0x0D then [CHR 0x5C, CHR ''r'']
      else if of_char c < (32 :: nat)
        then [CHR 0x5C, CHR ''u'', CHR ''0'', CHR ''0'',
              hex_digit (of_char c div 16), hex_digit (of_char c mod 16)]
      else [c])"

definition json_quote :: "string \<Rightarrow> string" where
  "json_quote s = CHR 0x22 # concat (map json_escape s) @ [CHR 0x22]"

fun json_text :: "jv \<Rightarrow> string" where
  "json_text JUndefined = ''null''"
| "json_text JNull = ''null''"
| "json_text (JBool b) = (if b then ''true'' else ''false'')"
| "json_text (JNum n) = string_of_int n"
| "json_text (JStr s) = json_quote s"
| "json_text (JArr xs) = ''['' @ join '','' (map json_text xs) @ '']''"
| "json_text (JObj ps) =
     ''{'' @ join '','' (map (\<lambda>p. json_quote (fst p) @ '':'' @ json_text (snd p))
                           (filter (\<lambda>p. snd p \<noteq> JUndefined) ps)) @ ''}''"

definition json_stringify :: "jv \<Rightarrow> string option" where
  "json_stringify data = (if data = JUndefined then None else Some (json_text data))"

text \<open>
  \<open>computeHash\<close>. The digest \<^verbatim>\<open>createHash('sha256').update(json).digest('hex')\<close> is
  the parameter \<open>sha256_hex\<close>; \<^verbatim>\<open>update\<close> raises a \<^verbatim>\<open>TypeError\<close> when it is given
  \<^verbatim>\<open>undefined\<close>.
\<close>

definition computeHash :: "(string \<Rightarrow> string) \<Rightarrow> jv \<Rightarrow> fault + string" where
  "computeHash sha256_hex data =
     (case json_stringify data of
        None \<Rightarrow> Inl (Fault ''The data argument must be of type string. Received undefined'')
      | Some json \<Rightarrow> Inr (''sha256:'' @ sha256_hex json))"

section \<open>Agents (studio/agents/types.ts and the BaseAgent class)\<close>

text \<open>
  Field names shared by several interfaces of the source carry a prefix here: \<open>cfg_\<close>,
  \<open>ctx_\<close>, \<open>md_\<close> and \<open>ar_\<close> for \<^verbatim>\<open>AgentConfig\<close>, \<^verbatim>\<open>AgentContext\<close>, \<^verbatim>\<open>AgentMetadata\<close>
  and \<^verbatim>\<open>AgentResult\<close>. An optional field is an \<open>option\<close>. A \<^verbatim>\<open>Date\<close> is its
  millisecond value.
\<close>

record AgentConfig =
  cfg_id :: string
  cfg_name :: string
  cfg_description :: string
  cfg_version :: string
  inputSchema :: string
  outputSchema :: string

record AgentContext =
  ctx_runId :: string
  ctx_timestamp :: int
  previousOutputs :: outputs
  verbose :: "bool option"

record AgentMetadata =
  md_durationMs :: int
  md_inputHash :: string
  md_outputHash :: "string option"

record AgentResult =
  ar_success :: bool
  ar_output :: "jv option"
  ar_errors :: "string list option"
  ar_metadata :: AgentMetadata

text \<open>The \<^verbatim>\<open>run\<close> method of the \<^verbatim>\<open>Agent\<close> interface; the promise may reject.\<close>

type_synonym Agent = "jv \<Rightarrow> AgentContext \<Rightarrow> fault + AgentResult"

text \<open>
  The schema validator (studio/utils/validate.ts is not among the sources): the
  parameter \<open>validate\<close> of \<open>BaseAgent_run\<close>, which returns \<^verbatim>\<open>{success, errors?}\<close> or
  raises.
\<close>

record ValidationResult =
  v_success :: bool
  v_errors :: "string list option"

type_synonym SchemaValidator = "string \<Rightarrow> jv \<Rightarrow> fault + ValidationResult"

text \<open>\<^verbatim>\<open>s.trim()\<close>, for the white space of ASCII.\<close>

definition is_space :: "char \<Rightarrow> bool" where
  "is_space c = (c \<in> {CHR 0x09, CHR 0x0A, CHR 0x0B, CHR 0x0C, CHR 0x0D, CHR 0x20})"

definition trim :: "string \<Rightarrow> string" where
  "trim s = rev (dropWhile is_space (rev (dropWhile is_space s)))"

text \<open>\<^verbatim>\<open>schema && schema.trim() !== ''\<close>\<close>

definition has_schema :: "string \<Rightarrow> bool" where
  "has_schema schema = (schema \<noteq> [] \<and> trim schema \<noteq> [])"

text \<open>\<^verbatim>\<open>`${validation.errors?.join(', ')}`\<close>\<close>

definition joined_errors :: "string list option \<Rightarrow> string" where
  "joined_errors es = (case es of None \<Rightarrow> ''undefined'' | Some xs \<Rightarrow> join '', '' xs)"

definition failure :: "string list \<Rightarrow> int \<Rightarrow> string \<Rightarrow> AgentResult" where
  "failure errs duration inputHash' =
     \<lparr> ar_success = False, ar_output = None, ar_errors = Some errs,
       ar_metadata = \<lparr> md_durationMs = duration, md_inputHash = inputHash', md_outputHash = None \<rparr> \<rparr>"

text \<open>
  \<open>BaseAgent.run\<close>. \<open>execute\<close> is the agent's own logic; \<open>t0\<close> is the clock reading
  \<^verbatim>\<open>Date.now()\<close> on entry and \<open>t1\<close> the reading when the result is built. The input
  hash and the input validation stand before the \<^verbatim>\<open>try\<close> block, so what they raise
  leaves \<open>run\<close>; everything from the call of \<open>execute\<close> on is inside it. Console
  output is not modelled.
\<close>

definition BaseAgent_run ::
  "(string \<Rightarrow> string) \<Rightarrow> SchemaValidator \<Rightarrow> AgentConfig \<Rightarrow> (jv \<Rightarrow> AgentContext \<Rightarrow> fault + jv)
     \<Rightarrow> int \<Rightarrow> int \<Rightarrow> Agent" where
  "BaseAgent_run sha256_hex validate config execute t0 t1 input context =
     (case computeHash sha256_hex input of
        Inl e \<Rightarrow> Inl e
      | Inr inputHash' \<Rightarrow>
          (case (if has_schema (inputSchema config)
                 then validate (inputSchema config) input
                 else Inr \<lparr> v_success = True, v_errors = None \<rparr>) of
             Inl e \<Rightarrow> Inl e
           | Inr inputValidation \<Rightarrow>
               if \<not> v_success inputValidation
               then Inr (failure [''Input validation failed: '' @ joined_errors (v_errors inputValidation)]
                           (t1 - t0) inputHash')
               else
                 (case execute input context of
                    Inl (Fault m) \<Rightarrow> Inr (failure [m] (t1 - t0) inputHash')
                  | Inr output' \<Rightarrow>
                      (case (if has_schema (outputSchema config)
                             then validate (outputSchema config) output'
                             else Inr \<lparr> v_success = True, v_errors = None \<rparr>) of
                         Inl (Fault m) \<Rightarrow> Inr (failure [m] (t1 - t0) inputHash')
                       | Inr outputValidation \<Rightarrow>
                           if \<not> v_success outputValidation
                           then Inr (failure [''Output validation failed: '' @ joined_errors (v_errors outputValidation)]
                                       (t1 - t0) inputHash')
                           else
                             (case computeHash sha256_hex output' of
                                Inl (Fault m) \<Rightarrow> Inr (failure [m] (t1 - t0) inputHash')
                              | Inr outputHash' \<Rightarrow>
                                  Inr \<lparr> ar_success = True, ar_output = Some output', ar_errors = None,
                                        ar_metadata = \<lparr> md_durationMs = t1 - t0, md_inputHash = inputHash',
                                                        md_outputHash = Some outputHash' \<rparr> \<rparr>)))))"

section \<open>Input resolution (PipelineOrchestrator.resolveInputs)\<close>

text \<open>
  \<open>keyMap\<close> is an object literal, so \<^verbatim>\<open>keyMap[agentId]\<close> also finds what the literal
  inherits from \<^verbatim>\<open>Object.prototype\<close>: a function, or the prototype itself under
  \<^verbatim>\<open>__proto__\<close>. Such a value is truthy and is then used as a property key, that is, as
  its string form (as Node.js prints it).
\<close>

definition keyMap :: "(string \<times> string) list" where
  "keyMap =
     [(''requirements-structurer'', ''designBrief''),
      (''domain-model'', ''domainModel''),
      (''system-architect'', ''componentMap''),
      (''api-contract'', ''apiContract''),
      (''prompt-pack-designer'', ''promptPacks''),
      (''scaffold-builder'', ''buildPlan'')]"

definition inherited_key :: "string \<Rightarrow> string option" where
  "inherited_key k =
     (if k = ''__proto__'' then Some ''[object Object]''
      else if k = ''constructor'' then Some ''function Object() { [native code] }''
      else if k \<in> {''__defineGetter__'', ''__defineSetter__'', ''hasOwnProperty'',
                    ''__lookupGetter__'', ''__lookupSetter__'', ''isPrototypeOf'',
                    ''propertyIsEnumerable'', ''toString'', ''valueOf'', ''toLocaleString''}
        then Some (''function '' @ k @ ''() { [native code] }'')
      else None)"

text \<open>\<^verbatim>\<open>keyMap[agentId] || agentId\<close>, as the property key it becomes.\<close>

definition dependencyToKey :: "string \<Rightarrow> string" where
  "dependencyToKey agentId' =
     (case map_of keyMap agentId' of
        Some key \<Rightarrow> key
      | None \<Rightarrow> (case inherited_key agentId' of Some key \<Rightarrow> key | None \<Rightarrow> agentId'))"

text \<open>
  An array index as a property key: the canonical decimal text of an integer below
  \<open>2\<^sup>3\<^sup>2 - 1\<close>. An object lists such keys first, in ascending order, and then its other
  keys in insertion order.
\<close>

definition is_digit :: "char \<Rightarrow> bool" where
  "is_digit c = (48 \<le> (of_char c :: nat) \<and> (of_char c :: nat) \<le> 57)"

definition array_index :: "string \<Rightarrow> nat option" where
  "array_index k =
     (if k \<noteq> [] \<and> list_all is_digit k \<and> (hd k \<noteq> CHR ''0'' \<or> length k = 1)
      then (let n = foldl (\<lambda>a c. 10 * a + (of_char c - 48)) 0 k
            in if n < 4294967295 then Some n else None)
      else None)"

text \<open>
  \<^verbatim>\<open>input[key] = v\<close> on an object that began as \<^verbatim>\<open>{}\<close>: an existing property is
  overwritten in place; a new one is added at its place in the key order. The key
  \<^verbatim>\<open>__proto__\<close> reaches the inherited setter and adds no property.
\<close>

definition obj_set :: "(string \<times> jv) list \<Rightarrow> string \<Rightarrow> jv \<Rightarrow> (string \<times> jv) list" where
  "obj_set ps k v =
     (if k = ''__proto__'' then ps
      else if map_of ps k \<noteq> None then AList.update k v ps
      else (case array_index k of
              None \<Rightarrow> ps @ [(k, v)]
            | Some n \<Rightarrow>
                (let earlier = (\<lambda>p. case array_index (fst p) of Some m \<Rightarrow> m < n | None \<Rightarrow> False)
                 in takeWhile earlier ps @ [(k, v)] @ dropWhile earlier ps)))"

definition resolveInputs :: "PipelineStage \<Rightarrow> outputs \<Rightarrow> jv" where
  "resolveInputs stage outs =
     (if length (dependsOn stage) = 0 then outputs_get outs ''input''
      else if length (dependsOn stage) = 1 then outputs_get outs (hd (dependsOn stage))
      else JObj (fold (\<lambda>depId input. obj_set input (dependencyToKey depId) (outputs_get outs depId))
                   (dependsOn stage) []))"

section \<open>The audit trail (AuditLogger)\<close>

datatype log_level = LevelInfo | LevelWarn | LevelError

text \<open>\<^verbatim>\<open>AuditLogEntry\<close>, fields prefixed \<open>le_\<close>.\<close>

record AuditLogEntry =
  le_timestamp :: int
  le_runId :: string
  le_level :: log_level
  le_agentId :: "string option"
  le_message :: string
  le_data :: "jv option"

datatype run_status = StatusSuccess | StatusFailed

text \<open>One entry of \<^verbatim>\<open>RunAudit.stages\<close>, fields prefixed \<open>as_\<close>.\<close>

record AuditStage =
  as_agentId :: string
  as_startTime :: string
  as_endTime :: string
  as_durationMs :: int
  as_inputHash :: string
  as_outputHash :: "string option"
  as_success :: bool
  as_errors :: "string list option"

text \<open>\<^verbatim>\<open>RunAudit\<close>, fields prefixed \<open>ra_\<close>; \<^verbatim>\<open>spec\<close> is its path and project name.\<close>

record RunAudit =
  ra_runId :: string
  ra_startTime :: int
  ra_endTime :: int
  ra_inputHash :: string
  ra_spec :: "string \<times> string"
  ra_stages :: "AuditStage list"
  ra_outputs :: "(string \<times> string) list"
  ra_overallStatus :: run_status
  ra_totalDurationMs :: int

text \<open>
  What a run reads and writes outside itself: how often the clock has been read, the
  lines appended to \<^verbatim>\<open>audit/log.jsonl\<close>, and the values written to
  \<^verbatim>\<open>audit/run.json\<close>, oldest first. File operations are taken to succeed.
\<close>

record world =
  clock_reads :: nat
  log_file :: "AuditLogEntry list"
  run_file :: "RunAudit list"

text \<open>\<^verbatim>\<open>new Date()\<close> and \<^verbatim>\<open>Date.now()\<close>: the next reading of the clock.\<close>

definition now :: "(nat \<Rightarrow> int) \<Rightarrow> world \<Rightarrow> int \<times> world" where
  "now clock w = (clock (clock_reads w), w\<lparr> clock_reads := clock_reads w + 1 \<rparr>)"

text \<open>\<open>AuditLogger.log\<close>: stamp the entry and append it.\<close>

definition audit_log ::
  "(nat \<Rightarrow> int) \<Rightarrow> string \<Rightarrow> log_level \<Rightarrow> string option \<Rightarrow> string \<Rightarrow> jv option \<Rightarrow> world \<Rightarrow> world" where
  "audit_log clock runId' lvl agent msg dat w =
     (case now clock w of
        (t, w') \<Rightarrow>
          w'\<lparr> log_file := log_file w' @
                [\<lparr> le_timestamp = t, le_runId = runId', le_level = lvl, le_agentId = agent,
                   le_message = msg, le_data = dat \<rparr>] \<rparr>)"

definition audit_info :: "(nat \<Rightarrow> int) \<Rightarrow> string \<Rightarrow> string \<Rightarrow> jv option \<Rightarrow> world \<Rightarrow> world" where
  "audit_info clock runId' msg dat = audit_log clock runId' LevelInfo None msg dat"

definition audit_error :: "(nat \<Rightarrow> int) \<Rightarrow> string \<Rightarrow> string \<Rightarrow> jv option \<Rightarrow> world \<Rightarrow> world" where
  "audit_error clock runId' msg dat = audit_log clock runId' LevelError None msg dat"

definition audit_stage :: "(nat \<Rightarrow> int) \<Rightarrow> string \<Rightarrow> string \<Rightarrow> string \<Rightarrow> world \<Rightarrow> world" where
  "audit_stage clock runId' agent msg = audit_log clock runId' LevelInfo (Some agent) msg None"

definition saveRunAudit :: "RunAudit \<Rightarrow> world \<Rightarrow> world" where
  "saveRunAudit audit w = w\<lparr> run_file := run_file w @ [audit] \<rparr>"

section \<open>The orchestrator (PipelineOrchestrator)\<close>

text \<open>The orchestrator's own \<^verbatim>\<open>StageResult\<close>, fields prefixed \<open>sr_\<close>.\<close>

record StageResult =
  sr_agentId :: string
  sr_success :: bool
  sr_output :: "jv option"
  sr_durationMs :: int
  sr_inputHash :: string
  sr_outputHash :: "string option"
  sr_errors :: "string list option"
  sr_gateResults :: "GateCheckResult list option"

text \<open>\<^verbatim>\<open>PipelineResult\<close>, fields prefixed \<open>pr_\<close>.\<close>

record PipelineResult =
  pr_success :: bool
  pr_runId :: string
  pr_outputs :: outputs
  pr_failedAt :: "string option"
  pr_errors :: "string list option"
  pr_audit :: RunAudit

definition buildAudit ::
  "string \<Rightarrow> int \<Rightarrow> int \<Rightarrow> string \<Rightarrow> StageResult list \<Rightarrow> run_status \<Rightarrow> RunAudit" where
  "buildAudit runId' startTime endTime inputHash' stageResults status =
     \<lparr> ra_runId = runId', ra_startTime = startTime, ra_endTime = endTime,
       ra_inputHash = inputHash', ra_spec = ([], []),
       ra_stages = map (\<lambda>sr. \<lparr> as_agentId = sr_agentId sr, as_startTime = [], as_endTime = [],
                                as_durationMs = sr_durationMs sr, as_inputHash = sr_inputHash sr,
                                as_outputHash = sr_outputHash sr, as_success = sr_success sr,
                                as_errors = sr_errors sr \<rparr>) stageResults,
       ra_outputs = [], ra_overallStatus = status,
       ra_totalDurationMs = endTime - startTime \<rparr>"

definition buildFailureResult ::
  "(nat \<Rightarrow> int) \<Rightarrow> string \<Rightarrow> int \<Rightarrow> string \<Rightarrow> string \<Rightarrow> string list option \<Rightarrow> StageResult list
     \<Rightarrow> world \<Rightarrow> PipelineResult \<times> world" where
  "buildFailureResult clock runId' startTime inputHash' failedAt errs stageResults w =
     (case now clock w of
        (endTime, w') \<Rightarrow>
          (\<lparr> pr_success = False, pr_runId = runId', pr_outputs = [],
             pr_failedAt = Some failedAt, pr_errors = errs,
             pr_audit = buildAudit runId' startTime endTime inputHash' stageResults StatusFailed \<rparr>,
           w'))"

text \<open>\<open>runGateChecks\<close>: no check is called inside a \<^verbatim>\<open>try\<close>, so a fault leaves the loop.\<close>

fun runGateChecks_loop ::
  "GateCheckFn list \<Rightarrow> outputs \<Rightarrow> GateCheckResult list \<Rightarrow> fault + GateCheckResult list" where
  "runGateChecks_loop [] outs results = Inr results"
| "runGateChecks_loop (check # checks) outs results =
     (case check outs of
        Inl e \<Rightarrow> Inl e
      | Inr rs \<Rightarrow> runGateChecks_loop checks outs (results @ rs))"

definition runGateChecks :: "GateCheckFn list \<Rightarrow> outputs \<Rightarrow> fault + GateCheckResult list" where
  "runGateChecks checks outs = runGateChecks_loop checks outs []"

text \<open>
  What stays fixed during one call of \<open>run\<close>: the clock, the agents map
  (\<^verbatim>\<open>this.agents\<close>), and the locals \<^verbatim>\<open>runId\<close>, \<^verbatim>\<open>startTime\<close>, \<^verbatim>\<open>inputHash\<close> and
  \<^verbatim>\<open>config.verbose\<close>.
\<close>

record run_frame =
  f_clock :: "nat \<Rightarrow> int"
  f_agents :: "(string \<times> Agent) list"
  f_runId :: string
  f_startTime :: int
  f_inputHash :: string
  f_verbose :: "bool option"

text \<open>
  What changes from stage to stage: \<^verbatim>\<open>context.previousOutputs\<close>, \<^verbatim>\<open>stageResults\<close> and
  the world.
\<close>

record loop_state =
  ls_outputs :: outputs
  ls_stageResults :: "StageResult list"
  ls_world :: world

text \<open>
  How one pass through the body of the stage loop ends: the loop goes on, \<open>run\<close>
  returns a result, or a fault leaves \<open>run\<close>.
\<close>

datatype step = Continue loop_state | Return PipelineResult world | Raise fault world

definition errors_data :: "string list option \<Rightarrow> jv" where
  "errors_data es = (case es of None \<Rightarrow> JUndefined | Some xs \<Rightarrow> JArr (map JStr xs))"

definition run_stage :: "run_frame \<Rightarrow> PipelineStage \<Rightarrow> loop_state \<Rightarrow> step" where
  "run_stage f stage st =
     (case map_of (f_agents f) (agentId stage) of
        None \<Rightarrow>
          (let error = ''Agent not found: '' @ agentId stage;
               w1 = audit_error (f_clock f) (f_runId f) error None (ls_world st)
           in case buildFailureResult (f_clock f) (f_runId f) (f_startTime f) (f_inputHash f)
                     (agentId stage) (Some [error]) (ls_stageResults st) w1 of
                (r, w2) \<Rightarrow> Return r w2)
      | Some agent \<Rightarrow>
          (let w1 = audit_stage (f_clock f) (f_runId f) (agentId stage) ''Starting'' (ls_world st);
               input = resolveInputs stage (ls_outputs st)
           in case now (f_clock f) w1 of
                (stageStartTime, w2) \<Rightarrow>
                  (case agent input \<lparr> ctx_runId = f_runId f, ctx_timestamp = f_startTime f,
                                       previousOutputs = ls_outputs st, verbose = f_verbose f \<rparr> of
                     Inl e \<Rightarrow> Raise e w2
                   | Inr result \<Rightarrow>
                       (case now (f_clock f) w2 of
                          (t, w3) \<Rightarrow>
                            (let durationMs = t - stageStartTime;
                                 stageResult =
                                   \<lparr> sr_agentId = agentId stage, sr_success = ar_success result,
                                     sr_output = ar_output result, sr_durationMs = durationMs,
                                     sr_inputHash = md_inputHash (ar_metadata result),
                                     sr_outputHash = md_outputHash (ar_metadata result),
                                     sr_errors = ar_errors result, sr_gateResults = None \<rparr>
                             in if \<not> ar_success result
                                then
                                  (let w4 = audit_error (f_clock f) (f_runId f)
                                              (''Agent '' @ agentId stage @ '' failed'')
                                              (Some (JObj [(''errors'', errors_data (ar_errors result))])) w3
                                   in case buildFailureResult (f_clock f) (f_runId f) (f_startTime f)
                                             (f_inputHash f) (agentId stage) (ar_errors result)
                                             (ls_stageResults st @ [stageResult]) w4 of
                                        (r, w5) \<Rightarrow> Return r w5)
                                else
                                  (let outs = outputs_set (ls_outputs st) (agentId stage)
                                                (case ar_output result of Some v \<Rightarrow> v | None \<Rightarrow> JUndefined);
                                       completed = (\<lambda>sr.
                                         Continue \<lparr> ls_outputs = outs,
                                                    ls_stageResults = ls_stageResults st @ [sr],
                                                    ls_world = audit_stage (f_clock f) (f_runId f) (agentId stage)
                                                      (''Completed in '' @ string_of_int durationMs @ ''ms'') w3 \<rparr>)
                                   in case gateChecks stage of
                                        None \<Rightarrow> completed stageResult
                                      | Some checks \<Rightarrow>
                                          (case runGateChecks checks outs of
                                             Inl e \<Rightarrow> Raise e w3
                                           | Inr gateResults \<Rightarrow>
                                               (let stageResult' = stageResult\<lparr> sr_gateResults := Some gateResults \<rparr>;
                                                    failures = filter (\<lambda>r. \<not> passed r \<and> severity r = SevError) gateResults
                                                in if length failures > 0
                                                   then
                                                     (let w4 = audit_error (f_clock f) (f_runId f)
                                                                 (''Gate checks failed for '' @ agentId stage)
                                                                 (Some (JObj [(''failures'', JArr (map (\<lambda>x. JStr (message x)) failures))])) w3
                                                      in case buildFailureResult (f_clock f) (f_runId f) (f_startTime f)
                                                                (f_inputHash f) (agentId stage @ '':gate'')
                                                                (Some (map message failures))
                                                                (ls_stageResults st @ [stageResult']) w4 of
                                                           (r, w5) \<Rightarrow> Return r w5)
                                                   else completed stageResult'))))))))"

text \<open>The stage loop and, once every stage has completed, the end of \<open>run\<close>.\<close>

fun run_loop :: "run_frame \<Rightarrow> PipelineStage list \<Rightarrow> loop_state \<Rightarrow> (fault + PipelineResult) \<times> world" where
  "run_loop f [] st =
     (case now (f_clock f) (ls_world st) of
        (endTime, w1) \<Rightarrow>
          (let totalDurationMs = endTime - f_startTime f;
               w2 = audit_info (f_clock f) (f_runId f) ''Pipeline completed successfully''
                      (Some (JObj [(''totalDurationMs'', JNum totalDurationMs),
                                   (''stagesCompleted'', JNum (int (length (ls_stageResults st))))])) w1;
               audit = buildAudit (f_runId f) (f_startTime f) endTime (f_inputHash f)
                         (ls_stageResults st) StatusSuccess
           in (Inr \<lparr> pr_success = True, pr_runId = f_runId f, pr_outputs = ls_outputs st,
                     pr_failedAt = None, pr_errors = None, pr_audit = audit \<rparr>,
               saveRunAudit audit w2)))"
| "run_loop f (stage # stages) st =
     (case run_stage f stage st of
        Continue st' \<Rightarrow> run_loop f stages st'
      | Return r w \<Rightarrow> (Inr r, w)
      | Raise e w \<Rightarrow> (Inl e, w))"

text \<open>
  \<open>PipelineOrchestrator.run\<close>. \<open>uuid\<close> is what \<^verbatim>\<open>randomUUID()\<close> returns, \<open>clock\<close> the
  successive readings of the clock, \<open>agents\<close> and \<open>stages\<close> the fields of the
  orchestrator, \<open>cfg_verbose\<close> is \<^verbatim>\<open>config.verbose\<close>. The locals that \<open>run\<close> sets up
  before the stage loop are \<open>start_frame\<close> and \<open>start_state\<close>.
\<close>

definition start_frame ::
  "string \<Rightarrow> (nat \<Rightarrow> int) \<Rightarrow> (string \<times> Agent) list \<Rightarrow> bool option \<Rightarrow> string \<Rightarrow> world \<Rightarrow> run_frame" where
  "start_frame uuid clock agents cfg_verbose inputHash' w =
     \<lparr> f_clock = clock, f_agents = agents, f_runId = uuid, f_startTime = fst (now clock w),
       f_inputHash = inputHash', f_verbose = cfg_verbose \<rparr>"

definition start_state :: "string \<Rightarrow> (nat \<Rightarrow> int) \<Rightarrow> jv \<Rightarrow> string \<Rightarrow> world \<Rightarrow> loop_state" where
  "start_state uuid clock initialInput inputHash' w =
     \<lparr> ls_outputs = [(''input'', initialInput)], ls_stageResults = [],
       ls_world = audit_info clock uuid ''Pipeline started''
                    (Some (JObj [(''inputHash'', JStr inputHash')])) (snd (now clock w)) \<rparr>"

definition run ::
  "string \<Rightarrow> (nat \<Rightarrow> int) \<Rightarrow> (string \<Rightarrow> string) \<Rightarrow> (string \<times> Agent) list \<Rightarrow> PipelineStage list
     \<Rightarrow> jv \<Rightarrow> bool option \<Rightarrow> world \<Rightarrow> (fault + PipelineResult) \<times> world" where
  "run uuid clock sha256_hex agents stages initialInput cfg_verbose w =
     (case computeHash sha256_hex initialInput of
        Inl e \<Rightarrow> (Inl e, snd (now clock w))
      | Inr inputHash' \<Rightarrow>
          run_loop (start_frame uuid clock agents cfg_verbose inputHash' w)
            (topologicalSort stages)
            (start_state uuid clock initialInput inputHash' w))"

text \<open>
  The state in which the stage loop arrives after the stages \<open>ss\<close>, when each of them
  completes; \<open>None\<close> when one of them ends the run.
\<close>

fun stages_completed :: "run_frame \<Rightarrow> PipelineStage list \<Rightarrow> loop_state \<Rightarrow> loop_state option" where
  "stages_completed f [] st = Some st"
| "stages_completed f (s # ss) st =
     (case run_stage f s st of
        Continue st' \<Rightarrow> stages_completed f ss st'
      | Return r w \<Rightarrow> None
      | Raise e w \<Rightarrow> None)"

section \<open>The scaffold builder (ScaffoldBuilderAgent)\<close>

text \<open>
  Strings are ASCII in what follows. A property read or a method call on a value that
  has no such member raises a \<^verbatim>\<open>TypeError\<close>; its message is abbreviated.
\<close>

text \<open>\<^verbatim>\<open>v.p\<close>, for a property name that no built-in prototype defines.\<close>

definition get_prop :: "jv \<Rightarrow> string \<Rightarrow> fault + jv" where
  "get_prop v p =
     (if v = JUndefined \<or> v = JNull
      then Inl (Fault (''Cannot read properties of undefined or null (reading '' @ p @ '')''))
      else Inr (opt_prop v p))"

definition is_lower :: "char \<Rightarrow> bool" where
  "is_lower c = (97 \<le> (of_char c :: nat) \<and> (of_char c :: nat) \<le> 122)"

definition is_upper :: "char \<Rightarrow> bool" where
  "is_upper c = (65 \<le> (of_char c :: nat) \<and> (of_char c :: nat) \<le> 90)"

definition toLowerCase :: "string \<Rightarrow> string" where
  "toLowerCase s = map (\<lambda>c. if is_upper c then char_of (of_char c + (32 :: nat)) else c) s"

text \<open>\<^verbatim>\<open>.replace(/([a-z])([A-Z])/g, '$1-$2')\<close>\<close>

fun split_camel :: "string \<Rightarrow> string" where
  "split_camel (a # b # cs) =
     (if is_lower a \<and> is_upper b then a # CHR ''-'' # b # split_camel cs
      else a # split_camel (b # cs))"
| "split_camel cs = cs"

text \<open>\<^verbatim>\<open>.replace(/\s+/g, '-')\<close>\<close>

function dash_spaces :: "string \<Rightarrow> string" where
  "dash_spaces [] = []"
| "dash_spaces (c # cs) =
     (if is_space c then CHR ''-'' # dash_spaces (dropWhile is_space cs)
      else c # dash_spaces cs)"
  by pat_completeness auto
termination
  by (relation "measure length") (auto simp: less_Suc_eq_le length_dropWhile_le)

definition toKebabCase :: "jv \<Rightarrow> fault + string" where
  "toKebabCase str =
     (case str of
        JStr s \<Rightarrow> Inr (toLowerCase (dash_spaces (split_camel s)))
      | _ \<Rightarrow> Inl (Fault ''str.replace is not a function''))"

text \<open>One pass of a loop that may raise: \<^verbatim>\<open>xs.map(f)\<close> with a callback that may throw.\<close>

fun map_fallible :: "('a \<Rightarrow> fault + 'b) \<Rightarrow> 'a list \<Rightarrow> fault + 'b list" where
  "map_fallible g [] = Inr []"
| "map_fallible g (x # xs) =
     (case g x of
        Inl e \<Rightarrow> Inl e
      | Inr y \<Rightarrow> (case map_fallible g xs of Inl e \<Rightarrow> Inl e | Inr ys \<Rightarrow> Inr (y # ys)))"

text \<open>\<open>extractResources\<close>; a resource is \<^verbatim>\<open>{name, type, routes}\<close>.\<close>

definition extractResources :: "jv \<Rightarrow> fault + jv list" where
  "extractResources domainModel =
     (case get_prop domainModel ''entities'' of
        Inl e \<Rightarrow> Inl e
      | Inr entities \<Rightarrow>
          (case (if truthy entities then entities else JArr []) of
             JArr es \<Rightarrow>
               map_fallible (\<lambda>entity.
                   case get_prop entity ''name'' of
                     Inl e \<Rightarrow> Inl e
                   | Inr nm \<Rightarrow> Inr (JObj [(''name'', nm), (''type'', JStr ''entity''), (''routes'', JArr [])]))
                 es
           | _ \<Rightarrow> Inl (Fault ''(domainModel.entities || []).map is not a function'')))"

definition file_entry :: "string \<Rightarrow> string \<Rightarrow> jv" where
  "file_entry path type = JObj [(''path'', JStr path), (''type'', JStr type)]"

definition generateFileList :: "string \<Rightarrow> jv list \<Rightarrow> fault + jv list" where
  "generateFileList projectName resources =
     (case map_fallible (\<lambda>resource.
               case opt_prop resource ''name'' of
                 JStr nm \<Rightarrow>
                   (let name = toLowerCase nm
                    in Inr [file_entry (''src/routes/'' @ name @ ''/index.ts'') ''generated'',
                            file_entry (''src/routes/'' @ name @ ''/schema.ts'') ''generated'',
                            file_entry (''src/routes/'' @ name @ ''/service.ts'') ''generated'',
                            file_entry (''src/routes/'' @ name @ ''/repository.ts'') ''generated''])
               | _ \<Rightarrow> Inl (Fault ''resource.name.toLowerCase is not a function''))
             resources of
        Inl e \<Rightarrow> Inl e
      | Inr generated \<Rightarrow>
          Inr ([file_entry ''package.json'' ''generated'',
                file_entry ''tsconfig.json'' ''generated'',
                file_entry ''.env.example'' ''static'',
                file_entry ''.gitignore'' ''static'',
                file_entry ''README.md'' ''static'',
                file_entry ''Dockerfile'' ''static'',
                file_entry ''docker-compose.yml'' ''static'',
                file_entry ''src/index.ts'' ''static'',
                file_entry ''src/app.ts'' ''static'',
                file_entry ''src/config/index.ts'' ''static'',
                file_entry ''src/config/database.ts'' ''static'',
                file_entry ''src/plugins/cors.ts'' ''static'',
                file_entry ''src/plugins/swagger.ts'' ''static'',
                file_entry ''src/middleware/auth.ts'' ''static'',
                file_entry ''src/middleware/error-handler.ts'' ''static'',
                file_entry ''src/db/client.ts'' ''static'',
                file_entry ''src/db/schema.sql'' ''static'']
               @ concat generated))"

definition generateDependencies :: jv where
  "generateDependencies =
     JObj [(''runtime'',
              JObj [(''fastify'', JStr ''^4.26.0''),
                    (''@fastify/cors'', JStr ''^9.0.0''),
                    (''@fastify/swagger'', JStr ''^8.14.0''),
                    (''@fastify/swagger-ui'', JStr ''^3.0.0''),
                    (''pg'', JStr ''^8.11.0''),
                    (''dotenv'', JStr ''^16.4.0''),
                    (''pino'', JStr ''^8.19.0''),
                    (''pino-pretty'', JStr ''^10.3.0'')]),
           (''dev'',
              JObj [(''typescript'', JStr ''^5.3.0''),
                    (''@types/node'', JStr ''^20.11.0''),
                    (''@types/pg'', JStr ''^8.11.0''),
                    (''tsx'', JStr ''^4.7.0''),
                    (''nodemon'', JStr ''^3.0.0'')])]"

definition generateScripts :: jv where
  "generateScripts =
     JObj [(''dev'', JStr ''nodemon --exec tsx src/index.ts''),
           (''build'', JStr ''tsc''),
           (''start'', JStr ''node dist/index.js''),
           (''typecheck'', JStr ''tsc --noEmit'')]"

text \<open>\<^verbatim>\<open>context.runId.replace(/[^a-f0-9]/g, '').substring(0, 32)\<close>\<close>

definition planId :: "string \<Rightarrow> string" where
  "planId runId' = take 32 (filter (\<lambda>c. is_digit c \<or> (97 \<le> (of_char c :: nat) \<and> (of_char c :: nat) \<le> 102)) runId')"

text \<open>\<open>ScaffoldBuilderAgent.execute\<close>\<close>

definition ScaffoldBuilderAgent_execute :: "jv \<Rightarrow> AgentContext \<Rightarrow> fault + jv" where
  "ScaffoldBuilderAgent_execute input context =
     (if input = JUndefined \<or> input = JNull
      then Inl (Fault ''Cannot destructure input as it is undefined or null'')
      else
        (let designBrief = opt_prop input ''designBrief'';
             domainModel = opt_prop input ''domainModel''
         in case get_prop designBrief ''meta'' of
              Inl e \<Rightarrow> Inl e
            | Inr meta \<Rightarrow>
                (case get_prop meta ''name'' of
                   Inl e \<Rightarrow> Inl e
                 | Inr nm \<Rightarrow>
                     (case toKebabCase nm of
                        Inl e \<Rightarrow> Inl e
                      | Inr projectName \<Rightarrow>
                          (case extractResources domainModel of
                             Inl e \<Rightarrow> Inl e
                           | Inr resources \<Rightarrow>
                               (case generateFileList projectName resources of
                                  Inl e \<Rightarrow> Inl e
                                | Inr files \<Rightarrow>
                                    Inr (JObj
                                      [(''id'', JStr (''buildplan-'' @ planId (ctx_runId context))),
                                       (''version'', JStr ''1.0.0''),
                                       (''projectName'', JStr projectName),
                                       (''stack'',
                                          JObj [(''type'', JStr ''nodejs''),
                                                (''framework'', JStr ''fastify''),
                                                (''database'', JStr ''postgres''),
                                                (''features'', JArr [JStr ''docker'', JStr ''openapi'', JStr ''logging''])]),
                                       (''files'', JArr files),
                                       (''dependencies'', generateDependencies),
                                       (''resources'', JArr resources),
                                       (''scripts'', generateScripts)])))))))"

section \<open>The declared pipeline (studio/agents/registry.ts)\<close>

text \<open>The bodies of the five checks past their guards, as \<open>AGENT_PIPELINE\<close> needs them.\<close>

record check_rests =
  rest_apiUseCaseCoverage :: "jv \<Rightarrow> jv \<Rightarrow> fault + GateCheckResult list"
  rest_componentDomainAlignment :: "jv \<Rightarrow> jv \<Rightarrow> fault + GateCheckResult list"
  rest_adrCompleteness :: "jv \<Rightarrow> fault + GateCheckResult list"
  rest_promptCoverage :: "jv \<Rightarrow> fault + GateCheckResult list"
  rest_scaffoldIntegrity :: "jv \<Rightarrow> fault + GateCheckResult list"

definition AGENT_PIPELINE :: "check_rests \<Rightarrow> PipelineStage list" where
  "AGENT_PIPELINE rs =
     [\<lparr> agentId = ''requirements-structurer'', dependsOn = [], gateChecks = None \<rparr>,
      \<lparr> agentId = ''domain-model'', dependsOn = [''requirements-structurer''], gateChecks = None \<rparr>,
      \<lparr> agentId = ''system-architect'',
        dependsOn = [''requirements-structurer'', ''domain-model''],
        gateChecks = Some [componentDomainAlignmentCheck (rest_componentDomainAlignment rs),
                           adrCompletenessCheck (rest_adrCompleteness rs)] \<rparr>,
      \<lparr> agentId = ''api-contract'',
        dependsOn = [''requirements-structurer'', ''system-architect'', ''domain-model''],
        gateChecks = Some [apiUseCaseCoverageCheck (rest_apiUseCaseCoverage rs)] \<rparr>,
      \<lparr> agentId = ''prompt-pack-designer'', dependsOn = [''requirements-structurer''],
        gateChecks = Some [promptCoverageCheck (rest_promptCoverage rs)] \<rparr>,
      \<lparr> agentId = ''scaffold-builder'',
        dependsOn = [''requirements-structurer'', ''domain-model'', ''api-contract'', ''system-architect''],
        gateChecks = Some [scaffoldIntegrityCheck (rest_scaffoldIntegrity rs)] \<rparr>,
      \<lparr> agentId = ''reviewer-verifier'',
        dependsOn = [''scaffold-builder'', ''prompt-pack-designer''], gateChecks = None \<rparr>]"

section \<open>Dependency graphs\<close>

text \<open>
  The dependency relation of a stage list: \<open>(d, a)\<close> when the stage with id \<open>a\<close> names
  \<open>d\<close> in its \<^verbatim>\<open>dependsOn\<close>. The list has no cycle when this relation is acyclic.
\<close>

definition dep_rel :: "PipelineStage list \<Rightarrow> (string \<times> string) set" where
  "dep_rel stages = {(d, agentId s) | d s. s \<in> set stages \<and> d \<in> set (dependsOn s)}"

text \<open>Every stage of an order stands after the stages that its \<^verbatim>\<open>dependsOn\<close> names.\<close>

definition placed_after_deps :: "PipelineStage list \<Rightarrow> bool" where
  "placed_after_deps order =
     (\<forall>i < length order. \<forall>d \<in> set (dependsOn (order ! i)). \<exists>j < i. agentId (order ! j) = d)"

text \<open>
  For the analysis of the queue loop: how many dependencies of a stage are not among the
  stages \<open>finished\<close>; the dependents that the first loop records for an id; the loop
  invariant, with \<open>todo\<close> the dependents still to be visited; and what holds of the
  order when the loop ends.
\<close>

definition unresolved :: "PipelineStage list \<Rightarrow> PipelineStage \<Rightarrow> nat" where
  "unresolved finished s = length (filter (\<lambda>d. d \<notin> agentId ` set finished) (dependsOn s))"

definition edges_to :: "PipelineStage list \<Rightarrow> string \<Rightarrow> string list" where
  "edges_to stages k = concat (map (\<lambda>s. replicate (count_list (dependsOn s) k) (agentId s)) stages)"

definition visit_inv ::
  "PipelineStage list \<Rightarrow> PipelineStage list \<Rightarrow> string list \<Rightarrow> inDegreeMap \<times> PipelineStage list \<Rightarrow> bool" where
  "visit_inv stages finished todo st \<longleftrightarrow>
     set (snd st) \<subseteq> set stages \<and>
     distinct (map agentId (finished @ snd st)) \<and>
     (\<forall>s\<in>set stages. map_of (fst st) (agentId s)
         = Some (Num (int (unresolved finished s + count_list todo (agentId s))))) \<and>
     (\<forall>s\<in>set stages. (s \<in> set (snd st) \<union> set finished)
         = (unresolved finished s = 0 \<and> agentId s \<notin> set todo))"

definition scheduled :: "PipelineStage list \<Rightarrow> PipelineStage list \<Rightarrow> bool" where
  "scheduled stages order \<longleftrightarrow>
     set order \<subseteq> set stages \<and> distinct (map agentId order) \<and> placed_after_deps order \<and>
     (\<forall>s\<in>set stages. (s \<in> set order) = (set (dependsOn s) \<subseteq> agentId ` set order))"

section \<open>Scenarios\<close>

text \<open>
  Concrete runs: a three-stage linear pipeline \<open>A \<rightarrow> B \<rightarrow> C\<close> of agents built on
  \<open>BaseAgent_run\<close> that declare no schema, a clock that advances by one at every
  reading, and a digest that stands in for SHA-256 (the text itself).
\<close>

definition plain_digest :: "string \<Rightarrow> string" where
  "plain_digest json = json"

definition accept_all :: SchemaValidator where
  "accept_all schema v = Inr \<lparr> v_success = True, v_errors = None \<rparr>"

definition scenario_config :: "string \<Rightarrow> AgentConfig" where
  "scenario_config a =
     \<lparr> cfg_id = a, cfg_name = a, cfg_description = [], cfg_version = ''1.0.0'',
       inputSchema = [], outputSchema = [] \<rparr>"

definition passthrough_agent :: "string \<Rightarrow> Agent" where
  "passthrough_agent a =
     BaseAgent_run plain_digest accept_all (scenario_config a) (\<lambda>input context. Inr input) 0 0"

definition raising_agent :: "string \<Rightarrow> Agent" where
  "raising_agent a =
     BaseAgent_run plain_digest accept_all (scenario_config a)
       (\<lambda>input context. Inl (Fault ''stage logic raised'')) 0 0"

definition stage_of :: "string \<Rightarrow> string list \<Rightarrow> PipelineStage" where
  "stage_of a deps = \<lparr> agentId = a, dependsOn = deps, gateChecks = None \<rparr>"

definition linear_pipeline :: "PipelineStage list" where
  "linear_pipeline = [stage_of ''A'' [], stage_of ''B'' [''A''], stage_of ''C'' [''B'']]"

definition ticking :: "nat \<Rightarrow> int" where
  "ticking n = int n"

definition fresh_world :: world where
  "fresh_world = \<lparr> clock_reads = 0, log_file = [], run_file = [] \<rparr>"

text \<open>A pipeline with a cycle, and one that names a stage nobody declares.\<close>

definition cyclic_pipeline :: "PipelineStage list" where
  "cyclic_pipeline = [stage_of ''A'' [''B''], stage_of ''B'' [''A'']]"

definition dangling_pipeline :: "PipelineStage list" where
  "dangling_pipeline = [stage_of ''A'' [], stage_of ''B'' [''X'']]"

text \<open>Where \<open>AGENT_PIPELINE\<close> declares an id.\<close>

definition declared_position :: "string \<Rightarrow> nat" where
  "declared_position a =
     (if a = ''requirements-structurer'' then 0
      else if a = ''domain-model'' then 1
      else if a = ''system-architect'' then 2
      else if a = ''api-contract'' then 3
      else if a = ''prompt-pack-designer'' then 4
      else if a = ''scaffold-builder'' then 5
      else 6)"

definition scenario_input :: jv where
  "scenario_input = JObj [(''n'', JNum 1)]"

text \<open>Scenario A: every stage passes its input through.\<close>

definition scenario_A :: "(fault + PipelineResult) \<times> world" where
  "scenario_A =
     run ''run-1'' ticking plain_digest
       [(''A'', passthrough_agent ''A''), (''B'', passthrough_agent ''B''), (''C'', passthrough_agent ''C'')]
       linear_pipeline scenario_input None fresh_world"

text \<open>
  Scenario B: the logic of \<open>B\<close> raises. \<open>scenario_frame\<close> and \<open>scenario_start\<close> are the
  locals with which its stage loop begins.
\<close>

definition scenario_agents :: "(string \<times> Agent) list" where
  "scenario_agents =
     [(''A'', passthrough_agent ''A''), (''B'', raising_agent ''B''), (''C'', passthrough_agent ''C'')]"

definition scenario_B :: "(fault + PipelineResult) \<times> world" where
  "scenario_B =
     run ''run-1'' ticking plain_digest scenario_agents linear_pipeline scenario_input None fresh_world"

definition scenario_frame :: run_frame where
  "scenario_frame =
     start_frame ''run-1'' ticking scenario_agents None (''sha256:'' @ json_text scenario_input) fresh_world"

definition scenario_start :: loop_state where
  "scenario_start =
     start_state ''run-1'' ticking scenario_input (''sha256:'' @ json_text scenario_input) fresh_world"

text \<open>A gate check that raises, attached to \<open>A\<close>; \<open>B\<close> depends on \<open>A\<close>.\<close>

definition raising_check :: GateCheckFn where
  "raising_check outs = Inl (Fault ''check raised'')"

definition scenario_raising_check :: "(fault + PipelineResult) \<times> world" where
  "scenario_raising_check =
     run ''run-2'' ticking plain_digest
       [(''A'', passthrough_agent ''A''), (''B'', passthrough_agent ''B'')]
       [\<lparr> agentId = ''A'', dependsOn = [], gateChecks = Some [raising_check] \<rparr>,
        stage_of ''B'' [''A'']]
       scenario_input None fresh_world"

text \<open>Scenario C: a gate check attached to \<open>A\<close> always reports an error.\<close>

definition failing_check :: GateCheckFn where
  "failing_check outs =
     Inr [\<lparr> gc_name = ''always-fails'', passed = False, severity = SevError,
              message = ''gate failed'', details = None \<rparr>]"

definition scenario_C :: "(fault + PipelineResult) \<times> world" where
  "scenario_C =
     run ''run-3'' ticking plain_digest
       [(''A'', passthrough_agent ''A''), (''B'', passthrough_agent ''B'')]
       [\<lparr> agentId = ''A'', dependsOn = [], gateChecks = Some [failing_check] \<rparr>,
        stage_of ''B'' [''A'']]
       scenario_input None fresh_world"

text \<open>The linear pipeline run with no agent registered for \<open>B\<close>.\<close>

definition scenario_missing_agent :: "(fault + PipelineResult) \<times> world" where
  "scenario_missing_agent =
     run ''run-4'' ticking plain_digest
       [(''A'', passthrough_agent ''A''), (''C'', passthrough_agent ''C'')]
       linear_pipeline scenario_input None fresh_world"

text \<open>No rest of a check is reached when the artifacts are missing; this one finds nothing.\<close>

definition no_rests :: check_rests where
  "no_rests =
     \<lparr> rest_apiUseCaseCoverage = (\<lambda>designBrief apiContract. Inr []),
       rest_componentDomainAlignment = (\<lambda>domainModel componentMap. Inr []),
       rest_adrCompleteness = (\<lambda>architectData. Inr []),
       rest_promptCoverage = (\<lambda>promptPacks. Inr []),
       rest_scaffoldIntegrity = (\<lambda>buildPlan. Inr []) \<rparr>"

text \<open>The composite input of the scaffold builder, and its context in two runs.\<close>

definition scaffold_input :: jv where
  "scaffold_input =
     JObj [(''designBrief'', JObj [(''meta'', JObj [(''name'', JStr ''Todo App'')])]),
           (''domainModel'', JObj [(''entities'', JArr [JObj [(''name'', JStr ''Task'')]])]),
           (''apiContract'', JObj [(''paths'', JObj [])]),
           (''componentMap'', JObj [(''components'', JArr [])])]"

definition context_of :: "string \<Rightarrow> AgentContext" where
  "context_of uuid =
     \<lparr> ctx_runId = uuid, ctx_timestamp = 0, previousOutputs = [], verbose = None \<rparr>"

section \<open>Properties of the gate summary\<close>

lemma filter_nonempty_iff: "0 < length (filter P xs) \<longleftrightarrow> (\<exists>x\<in>set xs. P x)"
  by (simp add: filter_empty_conv)

text \<open>
  Claim C8. For any list of gate check results, \<open>computeSummary\<close> reports
  \<open>failed\<close> exactly when some result has severity error and did not pass; otherwise it
  reports \<open>passed-with-warnings\<close> exactly when some result has severity warning and
  did not pass; otherwise it reports \<open>passed\<close>.
\<close>

theorem computeSummary_overallStatus:
  "(overallStatus (computeSummary checks) = ''failed''
      \<longleftrightarrow> (\<exists>c\<in>set checks. severity c = SevError \<and> \<not> passed c))
   \<and> (\<not> (\<exists>c\<in>set checks. severity c = SevError \<and> \<not> passed c) \<longrightarrow>
        (overallStatus (computeSummary checks) = ''passed-with-warnings''
          \<longleftrightarrow> (\<exists>c\<in>set checks. severity c = SevWarning \<and> \<not> passed c)))
   \<and> (\<not> (\<exists>c\<in>set checks. severity c = SevError \<and> \<not> passed c)
        \<and> \<not> (\<exists>c\<in>set checks. severity c = SevWarning \<and> \<not> passed c) \<longrightarrow>
        overallStatus (computeSummary checks) = ''passed'')"
proof -
  let ?e = "length (filter (\<lambda>c. \<not> passed c \<and> severity c = SevError) checks)"
  let ?w = "length (filter (\<lambda>c. \<not> passed c \<and> severity c = SevWarning) checks)"
  have e: "0 < ?e \<longleftrightarrow> (\<exists>c\<in>set checks. severity c = SevError \<and> \<not> passed c)"
    unfolding filter_nonempty_iff by blast
  have w: "0 < ?w \<longleftrightarrow> (\<exists>c\<in>set checks. severity c = SevWarning \<and> \<not> passed c)"
    unfolding filter_nonempty_iff by blast
  have s: "overallStatus (computeSummary checks) =
      (if 0 < ?e then ''failed'' else if 0 < ?w then ''passed-with-warnings'' else ''passed'')"
    by (simp add: computeSummary_def Let_def)
  show ?thesis
    unfolding s using e w by auto
qed

theorem computeSummary_overallStatus_witness:
  "overallStatus (computeSummary
      [\<lparr>gc_name = ''prompt-coverage'', passed = True, severity = SevInfo,
         message = ''All 7 agents have prompt packs'', details = None\<rparr>,
       \<lparr>gc_name = ''scaffold-integrity'', passed = False, severity = SevWarning,
         message = ''package.json missing dev script'', details = None\<rparr>])
     = ''passed-with-warnings''"
  using computeSummary_overallStatus
    [of "[\<lparr>gc_name = ''prompt-coverage'', passed = True, severity = SevInfo,
            message = ''All 7 agents have prompt packs'', details = None\<rparr>,
          \<lparr>gc_name = ''scaffold-integrity'', passed = False, severity = SevWarning,
            message = ''package.json missing dev script'', details = None\<rparr>]"]
  by simp

section \<open>Properties of the scheduler\<close>

subsection \<open>The first loop: in-degrees and dependents\<close>

lemma fst_fold_build:
  "fst (fold build_graph_step stages st)
     = fold (\<lambda>s. AList.update (agentId s) (Num (int (length (dependsOn s))))) stages (fst st)"
  by (induction stages arbitrary: st) (simp_all add: build_graph_step_def)

lemma snd_fold_build:
  "snd (fold build_graph_step stages st)
     = fold (\<lambda>s. fold (graph_push (agentId s)) (dependsOn s)) stages (snd st)"
  by (induction stages arbitrary: st) (simp_all add: build_graph_step_def)

lemma map_of_fold_update_other:
  "k \<notin> agentId ` set stages \<Longrightarrow>
   map_of (fold (\<lambda>s. AList.update (agentId s) (f s)) stages al) k = map_of al k"
  by (induction stages arbitrary: al) (auto simp: update_conv')

lemma map_of_fold_update:
  "distinct (map agentId stages) \<Longrightarrow> s \<in> set stages \<Longrightarrow>
   map_of (fold (\<lambda>s. AList.update (agentId s) (f s)) stages al) (agentId s) = Some (f s)"
proof (induction stages arbitrary: al)
  case Nil
  then show ?case by simp
next
  case (Cons t stages)
  show ?case
  proof (cases "s = t")
    case True
    then have "agentId s \<notin> agentId ` set stages" using Cons.prems by auto
    then show ?thesis using True
      by (simp add: map_of_fold_update_other update_conv')
  next
    case False
    then show ?thesis using Cons by auto
  qed
qed

lemma dependents_graph_push:
  "dependents (graph_push a dep g) k = dependents g k @ (if dep = k then [a] else [])"
  by (auto simp: dependents_def graph_push_def update_conv' split: option.splits)

lemma dependents_fold_push:
  "dependents (fold (graph_push a) deps g) k = dependents g k @ replicate (count_list deps k) a"
  by (induction deps arbitrary: g) (auto simp: dependents_graph_push replicate_app_Cons_same)

lemma dependents_built:
  "dependents (fold (\<lambda>s. fold (graph_push (agentId s)) (dependsOn s)) stages g) k
     = dependents g k @ edges_to stages k"
  by (induction stages arbitrary: g) (auto simp: dependents_fold_push edges_to_def)

lemma set_edges_to: "set (edges_to stages k) \<subseteq> agentId ` set stages"
  by (auto simp: edges_to_def)

lemma count_edges_to_other:
  "a \<notin> agentId ` set stages \<Longrightarrow> count_list (edges_to stages k) a = 0"
  using set_edges_to[of stages k] by (auto simp: count_list_0_iff)

lemma count_list_replicate: "count_list (replicate n a) b = (if a = b then n else 0)"
  by (induction n) auto

lemma count_edges_to:
  "distinct (map agentId stages) \<Longrightarrow> s \<in> set stages \<Longrightarrow>
   count_list (edges_to stages k) (agentId s) = count_list (dependsOn s) k"
proof (induction stages)
  case Nil
  then show ?case by simp
next
  case (Cons t stages)
  have e: "edges_to (t # stages) k = replicate (count_list (dependsOn t) k) (agentId t) @ edges_to stages k"
    by (simp add: edges_to_def)
  show ?case
  proof (cases "s = t")
    case True
    then have "agentId s \<notin> agentId ` set stages" using Cons.prems by auto
    then show ?thesis using True
      by (simp add: e count_list_replicate count_edges_to_other)
  next
    case False
    then have "s \<in> set stages" "agentId t \<noteq> agentId s" using Cons.prems by auto
    then show ?thesis using Cons by (simp add: e count_list_replicate)
  qed
qed


subsection \<open>The loop over the dependents of a dequeued stage\<close>

lemma find_stage:
  "distinct (map agentId stages) \<Longrightarrow> s \<in> set stages \<Longrightarrow>
   find (\<lambda>t. agentId t = agentId s) stages = Some s"
  by (induction stages) (auto simp: rev_image_eqI)

lemma same_id_same_stage:
  "distinct (map agentId stages) \<Longrightarrow> s \<in> set stages \<Longrightarrow> t \<in> set stages \<Longrightarrow>
   agentId s = agentId t \<Longrightarrow> s = t"
  by (meson distinct_map inj_onD)

lemma visit_step:
  assumes d: "distinct (map agentId stages)"
    and fin: "set finished \<subseteq> set stages"
    and x: "x \<in> agentId ` set stages"
    and inv: "visit_inv stages finished (x # todo) st"
  shows "visit_inv stages finished todo (visit_dependent stages x st)"
proof -
  obtain s where s: "s \<in> set stages" "agentId s = x" using x by auto
  have q: "set (snd st) \<subseteq> set stages"
    and dq: "distinct (map agentId (finished @ snd st))"
    and deg: "\<And>t. t \<in> set stages \<Longrightarrow> map_of (fst st) (agentId t)
                = Some (Num (int (unresolved finished t + count_list (x # todo) (agentId t))))"
    and mem: "\<And>t. t \<in> set stages \<Longrightarrow> (t \<in> set (snd st) \<union> set finished)
                = (unresolved finished t = 0 \<and> agentId t \<notin> set (x # todo))"
    using inv by (auto simp: visit_inv_def)
  have degx: "decrement (map_of (fst st) x)
      = Num (int (unresolved finished s + count_list todo x))"
    using deg[OF s(1)] s(2) by (simp add: decrement_def)
  have fnd: "find (\<lambda>t. agentId t = x) stages = Some s"
    using find_stage[OF d s(1)] s(2) by simp
  have snew: "s \<notin> set (snd st) \<union> set finished"
    using mem[OF s(1)] s(2) by simp
  have idnew: "x \<notin> agentId ` (set (snd st) \<union> set finished)"
  proof
    assume "x \<in> agentId ` (set (snd st) \<union> set finished)"
    then obtain t where t: "t \<in> set (snd st) \<union> set finished" "agentId t = x" by auto
    then have "t \<in> set stages" using q fin by auto
    then have "t = s" using same_id_same_stage[OF d _ s(1)] t(2) s(2) by simp
    then show False using snew t(1) by simp
  qed
  have zero: "(decrement (map_of (fst st) x) = Num 0)
      = (unresolved finished s = 0 \<and> x \<notin> set todo)"
  proof -
    have "(count_list todo x = 0) = (x \<notin> set todo)" by (simp add: count_list_0_iff)
    then show ?thesis unfolding degx by auto
  qed
  have degs': "map_of (AList.update x (decrement (map_of (fst st) x)) (fst st)) (agentId t)
      = Some (Num (int (unresolved finished t + count_list todo (agentId t))))"
    if "t \<in> set stages" for t
  proof (cases "agentId t = x")
    case True
    then have "t = s" using same_id_same_stage[OF d that s(1)] s(2) by simp
    then show ?thesis using degx s(2) by (simp add: update_conv')
  next
    case False
    then show ?thesis using deg[OF that] by (simp add: update_conv')
  qed
  show ?thesis
  proof (cases "decrement (map_of (fst st) x) = Num 0")
    case True
    then have v: "visit_dependent stages x st
        = (AList.update x (decrement (map_of (fst st) x)) (fst st), snd st @ [s])"
      by (simp add: visit_dependent_def Let_def fnd)
    have z: "unresolved finished s = 0" "x \<notin> set todo" using True zero by auto
    have m: "(t \<in> set (snd st @ [s]) \<union> set finished)
        = (unresolved finished t = 0 \<and> agentId t \<notin> set todo)" if "t \<in> set stages" for t
    proof (cases "t = s")
      case True
      then show ?thesis using z s(2) by simp
    next
      case False
      then have "agentId t \<noteq> x" using same_id_same_stage[OF d that s(1)] s(2) by auto
      then show ?thesis using mem[OF that] False by auto
    qed
    show ?thesis
      unfolding v visit_inv_def
      using q s(1) dq idnew degs' m s(2) by (auto simp: image_Un)
  next
    case False
    then have v: "visit_dependent stages x st
        = (AList.update x (decrement (map_of (fst st) x)) (fst st), snd st)"
      by (simp add: visit_dependent_def Let_def)
    have m: "(t \<in> set (snd st) \<union> set finished)
        = (unresolved finished t = 0 \<and> agentId t \<notin> set todo)" if "t \<in> set stages" for t
    proof (cases "t = s")
      case True
      then show ?thesis using snew False zero s(2) by auto
    next
      case False
      then have "agentId t \<noteq> x" using same_id_same_stage[OF d that s(1)] s(2) by auto
      then show ?thesis using mem[OF that] by auto
    qed
    show ?thesis
      unfolding v visit_inv_def
      using q dq degs' m by auto
  qed
qed

lemma visit_fold:
  assumes d: "distinct (map agentId stages)"
    and fin: "set finished \<subseteq> set stages"
  shows "set todo \<subseteq> agentId ` set stages \<Longrightarrow> visit_inv stages finished todo st \<Longrightarrow>
     visit_inv stages finished [] (fold (visit_dependent stages) todo st)"
proof (induction todo arbitrary: st)
  case Nil
  then show ?case by simp
next
  case (Cons x todo)
  have "visit_inv stages finished todo (visit_dependent stages x st)"
    using visit_step[OF d fin _ Cons.prems(2)] Cons.prems(1) by simp
  then show ?case using Cons.IH Cons.prems(1) by simp
qed


subsection \<open>The queue loop\<close>

lemma placed_after_deps_snoc:
  "placed_after_deps order \<Longrightarrow> set (dependsOn s) \<subseteq> agentId ` set order \<Longrightarrow>
   placed_after_deps (order @ [s])"
proof -
  assume a: "placed_after_deps order" and b: "set (dependsOn s) \<subseteq> agentId ` set order"
  show ?thesis
    unfolding placed_after_deps_def
  proof (intro allI impI ballI)
    fix i d
    assume i: "i < length (order @ [s])" and dd: "d \<in> set (dependsOn ((order @ [s]) ! i))"
    show "\<exists>j<i. agentId ((order @ [s]) ! j) = d"
    proof (cases "i < length order")
      case True
      then obtain j where "j < i" "agentId (order ! j) = d"
        using a dd by (auto simp: placed_after_deps_def nth_append)
      then show ?thesis using True by (auto simp: nth_append intro!: exI[of _ j])
    next
      case False
      then have ieq: "i = length order" using i by simp
      then have "d \<in> agentId ` set order" using dd b by auto
      then obtain j where "j < length order" "agentId (order ! j) = d"
        by (auto simp: in_set_conv_nth)
      then show ?thesis using ieq by (auto simp: nth_append intro!: exI[of _ j])
    qed
  qed
qed

lemma unresolved_zero: "(unresolved finished s = 0) = (set (dependsOn s) \<subseteq> agentId ` set finished)"
  by (auto simp: unresolved_def filter_empty_conv)

lemma length_filter_split:
  "P a \<Longrightarrow> length (filter P xs) = length (filter (\<lambda>x. P x \<and> x \<noteq> a) xs) + count_list xs a"
  by (induction xs) auto

lemma unresolved_snoc:
  "agentId p \<notin> agentId ` set finished \<Longrightarrow>
   unresolved finished s = unresolved (finished @ [p]) s + count_list (dependsOn s) (agentId p)"
proof -
  assume a: "agentId p \<notin> agentId ` set finished"
  have "(\<lambda>d. d \<notin> agentId ` set finished \<and> d \<noteq> agentId p) = (\<lambda>d. d \<notin> agentId ` set (finished @ [p]))"
    by auto
  then show ?thesis
    unfolding unresolved_def
    using length_filter_split[of "\<lambda>d. d \<notin> agentId ` set finished" "agentId p" "dependsOn s"] a
    by simp
qed

lemma visit_inv_dequeue:
  assumes d: "distinct (map agentId stages)"
    and inv: "visit_inv stages finished [] (inDegree, p # queue)"
  shows "visit_inv stages (finished @ [p]) (edges_to stages (agentId p)) (inDegree, queue)"
proof -
  have pnew: "agentId p \<notin> agentId ` set finished"
    using inv by (auto simp: visit_inv_def)
  have u: "unresolved finished s
      = unresolved (finished @ [p]) s + count_list (edges_to stages (agentId p)) (agentId s)"
    if "s \<in> set stages" for s
    using unresolved_snoc[OF pnew, of s] count_edges_to[OF d that, of "agentId p"] by simp
  have c: "(count_list (edges_to stages (agentId p)) (agentId s) = 0)
      = (agentId s \<notin> set (edges_to stages (agentId p)))" for s
    by (simp add: count_list_0_iff)
  have m: "(s \<in> set queue \<union> set (finished @ [p]))
      = (unresolved (finished @ [p]) s = 0 \<and> agentId s \<notin> set (edges_to stages (agentId p)))"
    if "s \<in> set stages" for s
  proof -
    have "(s \<in> set (p # queue) \<union> set finished) = (unresolved finished s = 0)"
      using inv that by (auto simp: visit_inv_def)
    then show ?thesis using u[OF that] c[of s] by auto
  qed
  show ?thesis
    unfolding visit_inv_def
    using inv u m by (auto simp: visit_inv_def)
qed

lemma kahn_loop_scheduled:
  "distinct (map agentId stages) \<Longrightarrow> (\<forall>k. dependents graph k = edges_to stages k) \<Longrightarrow>
   set finished \<subseteq> set stages \<Longrightarrow> placed_after_deps finished \<Longrightarrow>
   visit_inv stages finished [] (inDegree, queue) \<Longrightarrow>
   scheduled stages (kahn_loop stages graph inDegree queue finished)"
proof (induction stages graph inDegree queue finished rule: kahn_loop.induct)
  case (1 stages graph inDegree finished)
  then show ?case
    by (auto simp: scheduled_def visit_inv_def unresolved_zero)
next
  case (2 stages graph inDegree p queue finished)
  obtain inDegree' queue' where f: "(inDegree', queue')
      = fold (visit_dependent stages) (dependents graph (agentId p)) (inDegree, queue)"
    by (metis surj_pair)
  have pin: "p \<in> set stages" using "2.prems"(5) by (auto simp: visit_inv_def)
  have fin': "set (finished @ [p]) \<subseteq> set stages" using "2.prems"(3) pin by simp
  have "unresolved finished p = 0"
    using "2.prems"(5) pin by (auto simp: visit_inv_def)
  then have pa: "placed_after_deps (finished @ [p])"
    using placed_after_deps_snoc[OF "2.prems"(4)] by (simp add: unresolved_zero)
  have "visit_inv stages (finished @ [p]) (edges_to stages (agentId p)) (inDegree, queue)"
    by (rule visit_inv_dequeue[OF "2.prems"(1) "2.prems"(5)])
  then have "visit_inv stages (finished @ [p]) [] (inDegree', queue')"
    using visit_fold[OF "2.prems"(1) fin' set_edges_to] f "2.prems"(2) by simp
  then have "scheduled stages (kahn_loop stages graph inDegree' queue' (finished @ [p]))"
    using "2.IH"[OF f "2.prems"(1) "2.prems"(2) fin' pa] by simp
  then show ?case using f[symmetric] by simp
qed


subsection \<open>The order returned\<close>

lemma topologicalSort_scheduled:
  assumes d: "distinct (map agentId stages)"
  shows "scheduled stages (topologicalSort stages)"
proof -
  obtain inDegree graph where b: "fold build_graph_step stages ([], []) = (inDegree, graph)"
    by (metis surj_pair)
  have g: "\<forall>k. dependents graph k = edges_to stages k"
    using snd_fold_build[of stages "([], [])"] b
    by (simp add: dependents_built) (simp add: dependents_def)
  have i: "map_of inDegree (agentId s) = Some (Num (int (length (dependsOn s))))"
    if "s \<in> set stages" for s
    using fst_fold_build[of stages "([], [])"] b map_of_fold_update[OF d that] by simp
  have inv: "visit_inv stages [] []
      (inDegree, filter (\<lambda>stage. length (dependsOn stage) = 0) stages)"
    unfolding visit_inv_def using d i
    by (auto simp: unresolved_def distinct_map_filter)
  have "scheduled stages (kahn_loop stages graph inDegree
      (filter (\<lambda>stage. length (dependsOn stage) = 0) stages) [])"
    by (rule kahn_loop_scheduled[OF d g _ _ inv]) (simp_all add: placed_after_deps_def)
  then show ?thesis by (simp add: topologicalSort_def b)
qed

lemma finite_dep_rel: "finite (dep_rel stages)"
proof -
  have "dep_rel stages \<subseteq> (\<Union>s\<in>set stages. set (dependsOn s) \<times> {agentId s})"
    by (auto simp: dep_rel_def)
  then show ?thesis by (rule finite_subset) simp
qed

lemma scheduled_complete:
  assumes sch: "scheduled stages order"
    and ac: "acyclic (dep_rel stages)"
    and decl: "\<forall>s\<in>set stages. set (dependsOn s) \<subseteq> agentId ` set stages"
  shows "set order = set stages"
proof (rule ccontr)
  assume "set order \<noteq> set stages"
  moreover have "set order \<subseteq> set stages" using sch by (simp add: scheduled_def)
  ultimately obtain s0 where s0: "s0 \<in> set stages" "s0 \<notin> set order" by blast
  let ?U = "agentId ` (set stages - set order)"
  have wf: "wf (dep_rel stages)"
    using finite_dep_rel ac by (rule finite_acyclic_wf)
  have "agentId s0 \<in> ?U" using s0 by auto
  then obtain z where z: "z \<in> ?U" "\<And>y. (y, z) \<in> dep_rel stages \<Longrightarrow> y \<notin> ?U"
    using wfE_min[OF wf, of "agentId s0" ?U] by blast
  then obtain s where s: "s \<in> set stages" "s \<notin> set order" "agentId s = z" by auto
  have "set (dependsOn s) \<subseteq> agentId ` set order"
  proof
    fix dd assume dd: "dd \<in> set (dependsOn s)"
    then have "(dd, z) \<in> dep_rel stages" using s by (auto simp: dep_rel_def)
    then have nu: "dd \<notin> ?U" by (rule z(2))
    obtain t where t: "t \<in> set stages" "agentId t = dd" using decl s(1) dd by auto
    then have "t \<in> set order" using nu by auto
    then show "dd \<in> agentId ` set order" using t(2) by auto
  qed
  then have "s \<in> set order" using sch s(1) by (auto simp: scheduled_def)
  then show False using s(2) by simp
qed

lemma scheduled_sound:
  assumes sch: "scheduled stages order" and all: "set order = set stages"
  shows "acyclic (dep_rel stages) \<and> (\<forall>s\<in>set stages. set (dependsOn s) \<subseteq> agentId ` set stages)"
proof
  have dist: "distinct (map agentId order)" and pl: "placed_after_deps order"
    using sch by (auto simp: scheduled_def)
  define pos where "pos a = length (takeWhile (\<lambda>t. agentId t \<noteq> a) order)" for a
  have pos: "pos (agentId (order ! i)) = i" if "i < length order" for i
  proof -
    have "takeWhile (\<lambda>t. agentId t \<noteq> agentId (order ! i)) order = take i order"
    proof (rule takeWhile_eq_take_P_nth)
      fix j assume "j < i" "j < length order"
      then show "agentId (order ! j) \<noteq> agentId (order ! i)"
        using dist that by (simp add: distinct_conv_nth)
    next
      show "i < length order \<Longrightarrow> \<not> agentId (order ! i) \<noteq> agentId (order ! i)" by simp
    qed
    then show ?thesis using that by (simp add: pos_def)
  qed
  have lt: "pos a < pos b" if ab: "(a, b) \<in> dep_rel stages" for a b
  proof -
    obtain s where s: "s \<in> set stages" "a \<in> set (dependsOn s)" "b = agentId s"
      using ab by (auto simp: dep_rel_def)
    have "s \<in> set order" using s(1) all by simp
    then obtain i where i: "i < length order" "order ! i = s"
      by (auto simp: in_set_conv_nth)
    then obtain j where j: "j < i" "agentId (order ! j) = a"
      using pl s(2) by (auto simp: placed_after_deps_def)
    show ?thesis using pos[of i] pos[of j] i j s(3) by simp
  qed
  have "acyclic ((dep_rel stages)\<inverse>)"
    by (rule acyclicI_order[where f = pos]) (auto intro: lt)
  then show "acyclic (dep_rel stages)" by simp
  show "\<forall>s\<in>set stages. set (dependsOn s) \<subseteq> agentId ` set stages"
    using sch all by (auto simp: scheduled_def)
qed

lemma scheduled_length:
  assumes d: "distinct (map agentId stages)" and sch: "scheduled stages order"
  shows "(length order = length stages) = (set order = set stages)"
proof -
  have ds: "distinct stages" using d by (simp add: distinct_map)
  have do: "distinct order" using sch by (simp add: scheduled_def distinct_map)
  have sub: "set order \<subseteq> set stages" using sch by (simp add: scheduled_def)
  have "length order = card (set order)" "length stages = card (set stages)"
    using ds do by (simp_all add: distinct_card)
  then show ?thesis using sub by (metis List.finite_set card_subset_eq)
qed

subsection \<open>The scheduler's contract\<close>

lemma dep_rel_edges:
  "dep_rel stages = set (concat (map (\<lambda>s. map (\<lambda>d. (d, agentId s)) (dependsOn s)) stages))"
  by (auto simp: dep_rel_def)

lemma acyclic_ranked:
  assumes "\<forall>e \<in> r. rank (fst e) < (rank (snd e) :: nat)"
  shows "acyclic r"
proof -
  have "acyclic (r\<inverse>)"
    by (rule acyclicI_order[where f = rank]) (use assms in auto)
  then show ?thesis by simp
qed

lemma AGENT_PIPELINE_distinct: "distinct (map agentId (AGENT_PIPELINE rs))"
  by (simp add: AGENT_PIPELINE_def)

lemma AGENT_PIPELINE_declared:
  "\<forall>s\<in>set (AGENT_PIPELINE rs). set (dependsOn s) \<subseteq> agentId ` set (AGENT_PIPELINE rs)"
  by (simp add: AGENT_PIPELINE_def)

lemma AGENT_PIPELINE_acyclic: "acyclic (dep_rel (AGENT_PIPELINE rs))"
  by (rule acyclic_ranked[where rank = declared_position])
     (simp add: dep_rel_edges AGENT_PIPELINE_def declared_position_def)

lemma AGENT_PIPELINE_sixth:
  "dependsOn (topologicalSort (AGENT_PIPELINE no_rests) ! 5)
     = [''requirements-structurer'', ''domain-model'', ''api-contract'', ''system-architect'']"
  by code_simp

lemma cyclic_pipeline_order: "map agentId (topologicalSort cyclic_pipeline) = []"
  by code_simp

text \<open>
  Claim C9. For every stage list with no cycle and with every \<^verbatim>\<open>dependsOn\<close> id declared
  in the list (stage ids being unique, as the data model has them), the order returned
  by \<open>topologicalSort\<close> holds every stage, and each stage stands after all of the stages
  named in its \<^verbatim>\<open>dependsOn\<close>.
\<close>

theorem topologicalSort_after_dependencies:
  assumes "distinct (map agentId stages)"
    and "acyclic (dep_rel stages)"
    and "\<forall>s\<in>set stages. set (dependsOn s) \<subseteq> agentId ` set stages"
  shows "set (topologicalSort stages) = set stages
       \<and> length (topologicalSort stages) = length stages
       \<and> (\<forall>i < length (topologicalSort stages).
            \<forall>d \<in> set (dependsOn (topologicalSort stages ! i)).
              \<exists>j < i. agentId (topologicalSort stages ! j) = d)"
proof -
  have sch: "scheduled stages (topologicalSort stages)"
    using assms(1) by (rule topologicalSort_scheduled)
  have all: "set (topologicalSort stages) = set stages"
    using sch assms(2,3) by (rule scheduled_complete)
  have len: "length (topologicalSort stages) = length stages"
    using scheduled_length[OF assms(1) sch] all by simp
  have "placed_after_deps (topologicalSort stages)"
    using sch by (simp add: scheduled_def)
  then show ?thesis using all len by (simp add: placed_after_deps_def)
qed

theorem topologicalSort_after_dependencies_witness:
  "length (topologicalSort (AGENT_PIPELINE no_rests)) = 7
   \<and> (\<exists>j < 5. agentId (topologicalSort (AGENT_PIPELINE no_rests) ! j) = ''api-contract'')"
proof -
  note t = topologicalSort_after_dependencies
    [OF AGENT_PIPELINE_distinct AGENT_PIPELINE_acyclic AGENT_PIPELINE_declared, of no_rests]
  have l: "length (topologicalSort (AGENT_PIPELINE no_rests)) = 7"
    using t by (simp add: AGENT_PIPELINE_def)
  have "\<forall>d \<in> set (dependsOn (topologicalSort (AGENT_PIPELINE no_rests) ! 5)).
          \<exists>j < 5. agentId (topologicalSort (AGENT_PIPELINE no_rests) ! j) = d"
    using t l by simp
  then show ?thesis using l unfolding AGENT_PIPELINE_sixth by simp
qed

text \<open>
  Claim C3, as the code has it. \<open>topologicalSort\<close> has no way to report a defect: it
  returns an order for every stage list. For a stage list with unique ids the order is
  never longer than the list, and it has the length of the list exactly when the list
  has no cycle and every \<^verbatim>\<open>dependsOn\<close> id is declared; with a cycle or an undeclared
  dependency the order comes back shorter, and nothing says so.
\<close>

theorem topologicalSort_length_iff:
  assumes "distinct (map agentId stages)"
  shows "length (topologicalSort stages) \<le> length stages
       \<and> ((length (topologicalSort stages) = length stages)
           = (acyclic (dep_rel stages) \<and> (\<forall>s\<in>set stages. set (dependsOn s) \<subseteq> agentId ` set stages)))"
proof -
  have sch: "scheduled stages (topologicalSort stages)"
    using assms by (rule topologicalSort_scheduled)
  have d: "distinct (topologicalSort stages)" and sub: "set (topologicalSort stages) \<subseteq> set stages"
    using sch by (simp_all add: scheduled_def distinct_map)
  have "card (set (topologicalSort stages)) \<le> card (set stages)"
    using sub by (simp add: card_mono)
  moreover have "card (set (topologicalSort stages)) = length (topologicalSort stages)"
    using d by (simp add: distinct_card)
  ultimately have "length (topologicalSort stages) \<le> length stages"
    using card_length[of stages] by linarith
  moreover have "(length (topologicalSort stages) = length stages)
           = (acyclic (dep_rel stages) \<and> (\<forall>s\<in>set stages. set (dependsOn s) \<subseteq> agentId ` set stages))"
    using scheduled_length[OF assms sch] scheduled_complete[OF sch] scheduled_sound[OF sch]
    by blast
  ultimately show ?thesis by simp
qed

theorem topologicalSort_length_iff_witness:
  "length (topologicalSort cyclic_pipeline) \<le> 2 \<and> \<not> acyclic (dep_rel cyclic_pipeline)"
  using topologicalSort_length_iff[of cyclic_pipeline] cyclic_pipeline_order
  by (simp add: cyclic_pipeline_def stage_of_def)

text \<open>
  Claim C3 as stated fails: for two stages that depend on each other the scheduler
  returns the empty order, and for a stage that names an undeclared dependency it
  returns the order without that stage; in both cases the caller gets a list like any
  other.
\<close>

theorem topologicalSort_truncates:
  "map agentId (topologicalSort cyclic_pipeline) = []
   \<and> length cyclic_pipeline = 2
   \<and> map agentId (topologicalSort dangling_pipeline) = [''A'']
   \<and> length dangling_pipeline = 2"
  by code_simp

section \<open>Properties of the stage executor\<close>

text \<open>
  Claim C7. For every input, context and stage logic: when \<open>execute\<close> raises (the input
  hash having been computed and the input having passed validation, so that \<open>execute\<close>
  is reached), \<open>BaseAgent.run\<close> returns a result with \<open>success = False\<close>, the fault's
  message as its only error, and the input hash computed before; a fault leaves \<open>run\<close>
  only when hashing the input or validating the input raised it, never one raised by
  \<open>execute\<close>; and every result returned has an output exactly when it is a success
  and errors exactly when it is not.
\<close>

theorem BaseAgent_run_captures_faults:
  "(\<forall>m inputHash' inputValidation.
       computeHash sha256_hex input = Inr inputHash'
       \<and> (if has_schema (inputSchema config) then validate (inputSchema config) input
           else Inr \<lparr> v_success = True, v_errors = None \<rparr>) = Inr inputValidation
       \<and> v_success inputValidation
       \<and> execute input context = Inl (Fault m)
       \<longrightarrow> BaseAgent_run sha256_hex validate config execute t0 t1 input context
            = Inr \<lparr> ar_success = False, ar_output = None, ar_errors = Some [m],
                    ar_metadata = \<lparr> md_durationMs = t1 - t0, md_inputHash = inputHash',
                                    md_outputHash = None \<rparr> \<rparr>)
   \<and> (\<forall>e. BaseAgent_run sha256_hex validate config execute t0 t1 input context = Inl e
       \<longrightarrow> computeHash sha256_hex input = Inl e
           \<or> (has_schema (inputSchema config) \<and> validate (inputSchema config) input = Inl e))
   \<and> (\<forall>r. BaseAgent_run sha256_hex validate config execute t0 t1 input context = Inr r
       \<longrightarrow> (ar_output r \<noteq> None) = ar_success r \<and> (ar_errors r \<noteq> None) = (\<not> ar_success r))"
  by (auto simp: BaseAgent_run_def failure_def split: sum.splits fault.splits if_splits)

theorem BaseAgent_run_captures_faults_witness:
  "raising_agent ''B'' (JObj [(''n'', JNum 1)]) (context_of ''run-1'')
     = Inr \<lparr> ar_success = False, ar_output = None, ar_errors = Some [''stage logic raised''],
             ar_metadata = \<lparr> md_durationMs = 0, md_inputHash = ''sha256:'' @ json_text (JObj [(''n'', JNum 1)]),
                             md_outputHash = None \<rparr> \<rparr>"
proof -
  have h: "computeHash plain_digest (JObj [(''n'', JNum 1)]) = Inr (''sha256:'' @ json_text (JObj [(''n'', JNum 1)]))"
    by (simp add: computeHash_def json_stringify_def plain_digest_def)
  have s: "\<not> has_schema (inputSchema (scenario_config ''B''))"
    by (simp add: has_schema_def scenario_config_def)
  show ?thesis
    using BaseAgent_run_captures_faults
      [of plain_digest "JObj [(''n'', JNum 1)]" "scenario_config ''B''" accept_all
          "\<lambda>input context. Inl (Fault ''stage logic raised'')" "context_of ''run-1''" 0 0]
      h s
    by (simp add: raising_agent_def)
qed

section \<open>Properties of input resolution\<close>

lemma dependencyToKey_not_proto: "dependencyToKey d \<noteq> ''__proto__''"
proof (cases "map_of keyMap d")
  case (Some key)
  then have "(d, key) \<in> set keyMap" by (rule map_of_SomeD)
  then show ?thesis using Some by (auto simp: dependencyToKey_def keyMap_def)
next
  case None
  then show ?thesis
    by (auto simp: dependencyToKey_def inherited_key_def split: if_splits)
qed

lemma map_of_insert_fresh:
  "k \<notin> fst ` set (xs @ ys) \<Longrightarrow> map_of (xs @ (k, v) # ys) = (map_of (xs @ ys))(k \<mapsto> v)"
  by (induction xs) (auto simp: fun_upd_twist)

lemma map_of_obj_set:
  "k \<noteq> ''__proto__'' \<Longrightarrow> map_of (obj_set ps k v) = (map_of ps)(k \<mapsto> v)"
proof -
  assume k: "k \<noteq> ''__proto__''"
  show ?thesis
  proof (cases "map_of ps k")
    case (Some a)
    then show ?thesis using k by (simp add: obj_set_def update_conv')
  next
    case None
    then have fresh: "k \<notin> fst ` set ps" by (simp add: map_of_eq_None_iff)
    show ?thesis
    proof (cases "array_index k")
      case None
      then show ?thesis using k \<open>map_of ps k = None\<close>
        by (auto simp: obj_set_def map_add_def fun_eq_iff split: option.splits)
    next
      case (Some n)
      let ?e = "\<lambda>p. case array_index (fst p) of Some m \<Rightarrow> m < n | None \<Rightarrow> False"
      have "map_of (takeWhile ?e ps @ (k, v) # dropWhile ?e ps)
          = (map_of (takeWhile ?e ps @ dropWhile ?e ps))(k \<mapsto> v)"
        by (rule map_of_insert_fresh) (use fresh in simp)
      then show ?thesis using k \<open>map_of ps k = None\<close> Some by (simp add: obj_set_def Let_def)
    qed
  qed
qed

lemma keys_obj_set:
  "k \<noteq> ''__proto__'' \<Longrightarrow> fst ` set (obj_set ps k v) = insert k (fst ` set ps)"
  using map_of_obj_set[of k ps v] by (metis dom_fun_upd dom_map_of_conv_image_fst option.simps(3))

lemma distinct_obj_set:
  "distinct (map fst ps) \<Longrightarrow> distinct (map fst (obj_set ps k v))"
proof -
  assume d: "distinct (map fst ps)"
  show ?thesis
  proof (cases "k = ''__proto__'' \<or> map_of ps k \<noteq> None")
    case True
    then show ?thesis using d by (auto simp: obj_set_def distinct_update)
  next
    case False
    then have fresh: "k \<notin> fst ` set ps" by (simp add: map_of_eq_None_iff)
    have split: "distinct (map fst (takeWhile P ps @ (k, v) # dropWhile P ps))" for P
    proof -
      have "distinct (map fst (takeWhile P ps @ dropWhile P ps))" using d by simp
      moreover have "k \<notin> fst ` set (takeWhile P ps @ dropWhile P ps)" using fresh by simp
      ultimately show ?thesis by (auto simp del: takeWhile_dropWhile_id)
    qed
    show ?thesis using False d fresh split
      by (auto simp: obj_set_def Let_def split: option.splits)
  qed
qed

text \<open>The object that the loop of \<open>resolveInputs\<close> builds.\<close>

lemma resolve_fold:
  "distinct (map fst acc) \<Longrightarrow>
   distinct (map fst (fold (\<lambda>depId input. obj_set input (dependencyToKey depId) (outputs_get outs depId)) deps acc))
   \<and> map_of (fold (\<lambda>depId input. obj_set input (dependencyToKey depId) (outputs_get outs depId)) deps acc)
       = map_of acc ++ map_of (rev (map (\<lambda>d. (dependencyToKey d, outputs_get outs d)) deps))"
proof (induction deps arbitrary: acc)
  case Nil
  then show ?case by simp
next
  case (Cons d deps)
  have d1: "distinct (map fst (obj_set acc (dependencyToKey d) (outputs_get outs d)))"
    using Cons.prems by (rule distinct_obj_set)
  have m1: "map_of (obj_set acc (dependencyToKey d) (outputs_get outs d))
      = (map_of acc)(dependencyToKey d \<mapsto> outputs_get outs d)"
    by (rule map_of_obj_set[OF dependencyToKey_not_proto])
  show ?case
    using Cons.IH[OF d1] m1
    by (auto simp: map_add_def fun_eq_iff split: option.splits)
qed


lemma resolveInputs_composite:
  assumes "2 \<le> length (dependsOn stage)"
  shows "\<exists>ps. resolveInputs stage outs = JObj ps \<and> distinct (map fst ps)
     \<and> map_of ps = map_of (rev (map (\<lambda>d. (dependencyToKey d, outputs_get outs d)) (dependsOn stage)))"
proof -
  have "length (dependsOn stage) \<noteq> 0" "length (dependsOn stage) \<noteq> 1"
    using assms by auto
  then have "resolveInputs stage outs
      = JObj (fold (\<lambda>depId input. obj_set input (dependencyToKey depId) (outputs_get outs depId))
                (dependsOn stage) [])"
    unfolding resolveInputs_def by (simp only: if_False)
  then show ?thesis
    using resolve_fold[of "[]" outs "dependsOn stage"] by simp
qed

lemma map_of_keyed:
  assumes "inj_on key (set ds)" and "d \<in> set ds"
  shows "map_of (rev (map (\<lambda>d. (key d, val d)) ds)) (key d) = Some (val d)"
proof -
  let ?xs = "rev (map (\<lambda>d. (key d, val d)) ds)"
  have "key d \<in> fst ` set ?xs" using assms(2) by force
  then obtain v where v: "map_of ?xs (key d) = Some v"
    by (metis domD dom_map_of_conv_image_fst)
  then have "(key d, v) \<in> set ?xs" by (rule map_of_SomeD)
  then obtain d' where "d' \<in> set ds" "key d' = key d" "v = val d'" by auto
  then have "v = val d" using assms by (auto dest: inj_onD)
  then show ?thesis using v by simp
qed

text \<open>
  Claim C10. \<open>resolveInputs\<close> gives a stage with no dependency the value stored under
  \<open>input\<close>; a stage with one dependency that dependency's stored output, unchanged; a
  stage with several dependencies a new object whose keys are the keys of its
  dependency ids, where each key holds the stored output of its dependency (distinct
  ids having distinct keys). A stage with \<open>dependsOn = [a, b]\<close> and keys \<open>x \<noteq> y\<close>
  receives exactly \<open>{x: artifacts[a], y: artifacts[b]}\<close>. The ids of the static table
  have the keys of the table.
\<close>

theorem resolveInputs_by_dependencies:
  "(dependsOn stage = [] \<longrightarrow> resolveInputs stage outs = outputs_get outs ''input'')
   \<and> (\<forall>d. dependsOn stage = [d] \<longrightarrow> resolveInputs stage outs = outputs_get outs d)
   \<and> (2 \<le> length (dependsOn stage) \<longrightarrow>
        (\<exists>ps. resolveInputs stage outs = JObj ps \<and> distinct (map fst ps)
           \<and> fst ` set ps = dependencyToKey ` set (dependsOn stage)
           \<and> (inj_on dependencyToKey (set (dependsOn stage)) \<longrightarrow>
                (\<forall>d \<in> set (dependsOn stage).
                   map_of ps (dependencyToKey d) = Some (outputs_get outs d)))))
   \<and> (\<forall>a b. dependsOn stage = [a, b] \<and> dependencyToKey a \<noteq> dependencyToKey b \<longrightarrow>
        (\<exists>ps. resolveInputs stage outs = JObj ps
           \<and> map_of ps = [dependencyToKey a \<mapsto> outputs_get outs a,
                          dependencyToKey b \<mapsto> outputs_get outs b]))
   \<and> (\<forall>p \<in> set keyMap. dependencyToKey (fst p) = snd p)"
proof (intro conjI allI impI)
  show "dependsOn stage = [] \<Longrightarrow> resolveInputs stage outs = outputs_get outs ''input''"
    by (simp add: resolveInputs_def)
  show "dependsOn stage = [d] \<Longrightarrow> resolveInputs stage outs = outputs_get outs d" for d
    by (simp add: resolveInputs_def)
  show "\<exists>ps. resolveInputs stage outs = JObj ps \<and> distinct (map fst ps)
           \<and> fst ` set ps = dependencyToKey ` set (dependsOn stage)
           \<and> (inj_on dependencyToKey (set (dependsOn stage)) \<longrightarrow>
                (\<forall>d \<in> set (dependsOn stage).
                   map_of ps (dependencyToKey d) = Some (outputs_get outs d)))"
    if two: "2 \<le> length (dependsOn stage)"
  proof -
    obtain ps where ps: "resolveInputs stage outs = JObj ps" "distinct (map fst ps)"
        "map_of ps = map_of (rev (map (\<lambda>d. (dependencyToKey d, outputs_get outs d)) (dependsOn stage)))"
      using resolveInputs_composite[OF two] by blast
    have "dom (map_of ps) = dependencyToKey ` set (dependsOn stage)"
      unfolding ps(3) by (force simp: dom_map_of_conv_image_fst)
    then have keys: "fst ` set ps = dependencyToKey ` set (dependsOn stage)"
      by (simp add: dom_map_of_conv_image_fst)
    have vals: "map_of ps (dependencyToKey d) = Some (outputs_get outs d)"
      if "inj_on dependencyToKey (set (dependsOn stage))" "d \<in> set (dependsOn stage)" for d
      unfolding ps(3) using that by (rule map_of_keyed)
    show ?thesis
    proof (intro exI[of _ ps] conjI impI ballI)
      show "resolveInputs stage outs = JObj ps" by (fact ps(1))
      show "distinct (map fst ps)" by (fact ps(2))
      show "fst ` set ps = dependencyToKey ` set (dependsOn stage)" by (fact keys)
      show "map_of ps (dependencyToKey d) = Some (outputs_get outs d)"
        if "inj_on dependencyToKey (set (dependsOn stage))" "d \<in> set (dependsOn stage)" for d
        using that by (rule vals)
    qed
  qed
  show "\<exists>ps. resolveInputs stage outs = JObj ps
           \<and> map_of ps = [dependencyToKey a \<mapsto> outputs_get outs a,
                          dependencyToKey b \<mapsto> outputs_get outs b]"
    if ab: "dependsOn stage = [a, b] \<and> dependencyToKey a \<noteq> dependencyToKey b" for a b
  proof -
    have "2 \<le> length (dependsOn stage)" using ab by simp
    then obtain ps where ps: "resolveInputs stage outs = JObj ps"
        "map_of ps = map_of (rev (map (\<lambda>d. (dependencyToKey d, outputs_get outs d)) (dependsOn stage)))"
      using resolveInputs_composite by blast
    have d: "dependsOn stage = [a, b]" and ne: "dependencyToKey a \<noteq> dependencyToKey b"
      using ab by simp_all
    have "map_of ps = [dependencyToKey a \<mapsto> outputs_get outs a,
                       dependencyToKey b \<mapsto> outputs_get outs b]"
      unfolding ps(2) d using ne by (simp add: fun_upd_twist)
    then show ?thesis using ps(1) by (intro exI[of _ ps] conjI)
  qed
  show "\<forall>p \<in> set keyMap. dependencyToKey (fst p) = snd p"
    by (simp add: keyMap_def dependencyToKey_def)
qed

theorem resolveInputs_by_dependencies_witness:
  "\<exists>ps. resolveInputs (stage_of ''system-architect'' [''requirements-structurer'', ''domain-model''])
            [(''input'', JStr ''spec''), (''requirements-structurer'', JStr ''brief''),
             (''domain-model'', JStr ''model'')] = JObj ps
        \<and> map_of ps = [''designBrief'' \<mapsto> JStr ''brief'', ''domainModel'' \<mapsto> JStr ''model'']"
proof -
  have k: "dependencyToKey ''requirements-structurer'' = ''designBrief''"
      "dependencyToKey ''domain-model'' = ''domainModel''"
    by (simp_all add: dependencyToKey_def keyMap_def)
  let ?stage = "stage_of ''system-architect'' [''requirements-structurer'', ''domain-model'']"
  let ?outs = "[(''input'', JStr ''spec''), (''requirements-structurer'', JStr ''brief''),
            (''domain-model'', JStr ''model'')]"
  have d: "dependsOn ?stage = [''requirements-structurer'', ''domain-model'']
      \<and> dependencyToKey ''requirements-structurer'' \<noteq> dependencyToKey ''domain-model''"
    by (simp add: k stage_of_def)
  have g: "outputs_get ?outs ''requirements-structurer'' = JStr ''brief''"
      "outputs_get ?outs ''domain-model'' = JStr ''model''"
    by (simp_all add: outputs_get_def)
  have "\<forall>a b. dependsOn ?stage = [a, b] \<and> dependencyToKey a \<noteq> dependencyToKey b \<longrightarrow>
        (\<exists>ps. resolveInputs ?stage ?outs = JObj ps
           \<and> map_of ps = [dependencyToKey a \<mapsto> outputs_get ?outs a,
                          dependencyToKey b \<mapsto> outputs_get ?outs b])"
    using resolveInputs_by_dependencies[of ?stage ?outs] by (elim conjE)
  then have "\<exists>ps. resolveInputs ?stage ?outs = JObj ps
           \<and> map_of ps = [dependencyToKey ''requirements-structurer'' \<mapsto> outputs_get ?outs ''requirements-structurer'',
                          dependencyToKey ''domain-model'' \<mapsto> outputs_get ?outs ''domain-model'']"
    using d by blast
  then show ?thesis unfolding k g .
qed

section \<open>Properties of the quality gate checks\<close>

text \<open>
  Claim C4, as the code has it. When the artifact map lacks what a check needs (the
  artifact is missing, or the field the check reads is missing or falsy),
  \<open>apiUseCaseCoverageCheck\<close> and \<open>componentDomainAlignmentCheck\<close> return a single
  result with \<open>passed = True\<close> and severity info that states insufficient data, while
  \<open>adrCompletenessCheck\<close>, \<open>promptCoverageCheck\<close> and \<open>scaffoldIntegrityCheck\<close> return
  a single result with \<open>passed = False\<close> and severity error.
\<close>

theorem checks_without_artifacts:
  "(\<not> truthy (opt_prop (outputs_get outs ''requirements-structurer'') ''useCases'')
      \<or> \<not> truthy (opt_prop (outputs_get outs ''api-contract'') ''paths'')
     \<longrightarrow> apiUseCaseCoverageCheck restA outs
          = Inr [\<lparr> gc_name = ''api-usecase-coverage'', passed = True, severity = SevInfo,
                     message = ''Insufficient data for use case coverage check'', details = None \<rparr>])
   \<and> (\<not> truthy (opt_prop (outputs_get outs ''domain-model'') ''entities'')
      \<or> \<not> truthy (opt_prop (outputs_get outs ''system-architect'') ''components'')
     \<longrightarrow> componentDomainAlignmentCheck restC outs
          = Inr [\<lparr> gc_name = ''component-domain-alignment'', passed = True, severity = SevInfo,
                     message = ''Insufficient data for domain alignment check'', details = None \<rparr>])
   \<and> (\<not> truthy (opt_prop (outputs_get outs ''system-architect'') ''adrs'')
     \<longrightarrow> adrCompletenessCheck restD outs
          = Inr [\<lparr> gc_name = ''adr-completeness'', passed = False, severity = SevError,
                     message = ''No ADRs found in architecture output'', details = None \<rparr>])
   \<and> (\<not> truthy (opt_prop (outputs_get outs ''prompt-pack-designer'') ''packs'')
     \<longrightarrow> promptCoverageCheck restP outs
          = Inr [\<lparr> gc_name = ''prompt-coverage'', passed = False, severity = SevError,
                     message = ''No prompt packs generated'', details = None \<rparr>])
   \<and> (\<not> truthy (opt_prop (outputs_get outs ''scaffold-builder'') ''files'')
     \<longrightarrow> scaffoldIntegrityCheck restS outs
          = Inr [\<lparr> gc_name = ''scaffold-integrity'', passed = False, severity = SevError,
                     message = ''No scaffold files generated'', details = None \<rparr>])"
  by (simp add: apiUseCaseCoverageCheck_def componentDomainAlignmentCheck_def
        adrCompletenessCheck_def promptCoverageCheck_def scaffoldIntegrityCheck_def Let_def)

lemma missing_artifact: "map_of outs k = None \<Longrightarrow> \<not> truthy (opt_prop (outputs_get outs k) p)"
  by (simp add: outputs_get_def)

theorem checks_without_artifacts_witness:
  "apiUseCaseCoverageCheck (rest_apiUseCaseCoverage no_rests) [(''input'', JStr ''spec'')]
      = Inr [\<lparr> gc_name = ''api-usecase-coverage'', passed = True, severity = SevInfo,
                 message = ''Insufficient data for use case coverage check'', details = None \<rparr>]
   \<and> scaffoldIntegrityCheck (rest_scaffoldIntegrity no_rests) [(''input'', JStr ''spec'')]
      = Inr [\<lparr> gc_name = ''scaffold-integrity'', passed = False, severity = SevError,
                 message = ''No scaffold files generated'', details = None \<rparr>]"
  using checks_without_artifacts
    [where outs = "[(''input'', JStr ''spec'')]" and restA = "rest_apiUseCaseCoverage no_rests"
       and restS = "rest_scaffoldIntegrity no_rests"]
    missing_artifact[of "[(''input'', JStr ''spec'')]"]
  by simp

text \<open>
  Claim C4 as stated fails: on an artifact map that holds only the initial input,
  \<open>adrCompletenessCheck\<close> and \<open>promptCoverageCheck\<close> each return one result with
  \<open>passed = False\<close> and severity error.
\<close>

theorem absent_artifact_reported_as_error:
  "adrCompletenessCheck (rest_adrCompleteness no_rests) [(''input'', JStr ''spec'')]
      = Inr [\<lparr> gc_name = ''adr-completeness'', passed = False, severity = SevError,
                 message = ''No ADRs found in architecture output'', details = None \<rparr>]
   \<and> promptCoverageCheck (rest_promptCoverage no_rests) [(''input'', JStr ''spec'')]
      = Inr [\<lparr> gc_name = ''prompt-coverage'', passed = False, severity = SevError,
                 message = ''No prompt packs generated'', details = None \<rparr>]"
  by (simp add: adrCompletenessCheck_def promptCoverageCheck_def outputs_get_def)

section \<open>Properties of the orchestrator\<close>

lemma run_loop_append:
  "stages_completed f before st = Some st' \<Longrightarrow> run_loop f (before @ rest) st = run_loop f rest st'"
  by (induction before arbitrary: st) (auto split: step.splits)

lemma run_stage_agent_failure:
  assumes "map_of (f_agents f) (agentId stage) = Some agent"
    and "agent (resolveInputs stage (ls_outputs st))
           \<lparr> ctx_runId = f_runId f, ctx_timestamp = f_startTime f,
             previousOutputs = ls_outputs st, verbose = f_verbose f \<rparr> = Inr result"
    and "\<not> ar_success result"
  shows "\<exists>r w'. run_stage f stage st = Return r w' \<and> pr_success r = False
      \<and> pr_failedAt r = Some (agentId stage) \<and> pr_errors r = ar_errors result
      \<and> pr_outputs r = []"
  using assms
  by (simp add: run_stage_def Let_def buildFailureResult_def split: prod.splits)

text \<open>
  Claim C1, as the code has it. If the stage at some position of the scheduled order
  fails (the stages before it having completed), \<open>run\<close> returns \<open>success = False\<close>
  with \<open>failedAt\<close> equal to that stage's id and the stage's errors, and the artifacts
  map it returns is empty: it has no entry for the failed stage or a later one, and
  none for \<open>input\<close> or the stages that completed either.
\<close>

theorem run_fails_fast:
  assumes "computeHash sha256_hex initialInput = Inr inputHash'"
    and "topologicalSort stages = before @ stage # after"
    and "stages_completed (start_frame uuid clock agents cfg_verbose inputHash' w) before
           (start_state uuid clock initialInput inputHash' w) = Some st"
    and "map_of agents (agentId stage) = Some agent"
    and "agent (resolveInputs stage (ls_outputs st))
           \<lparr> ctx_runId = uuid, ctx_timestamp = fst (now clock w),
             previousOutputs = ls_outputs st, verbose = cfg_verbose \<rparr> = Inr result"
    and "\<not> ar_success result"
  shows "\<exists>r w'. run uuid clock sha256_hex agents stages initialInput cfg_verbose w = (Inr r, w')
      \<and> pr_success r = False \<and> pr_failedAt r = Some (agentId stage)
      \<and> pr_errors r = ar_errors result \<and> pr_outputs r = []"
proof -
  let ?f = "start_frame uuid clock agents cfg_verbose inputHash' w"
  have "\<exists>r w'. run_stage ?f stage st = Return r w' \<and> pr_success r = False
      \<and> pr_failedAt r = Some (agentId stage) \<and> pr_errors r = ar_errors result
      \<and> pr_outputs r = []"
    by (rule run_stage_agent_failure[where agent = agent])
       (use assms(4,5,6) in \<open>simp_all add: start_frame_def\<close>)
  then obtain r w' where r: "run_stage ?f stage st = Return r w'" "pr_success r = False"
      "pr_failedAt r = Some (agentId stage)" "pr_errors r = ar_errors result" "pr_outputs r = []"
    by blast
  have "run uuid clock sha256_hex agents stages initialInput cfg_verbose w
      = run_loop ?f (before @ stage # after) (start_state uuid clock initialInput inputHash' w)"
    using assms(1,2) by (simp add: run_def)
  also have "\<dots> = run_loop ?f (stage # after) st"
    using assms(3) by (rule run_loop_append)
  also have "\<dots> = (Inr r, w')"
    using r(1) by simp
  finally show ?thesis using r(2-5) by blast
qed

lemma linear_pipeline_order:
  "topologicalSort linear_pipeline = [stage_of ''A'' []] @ stage_of ''B'' [''A''] # [stage_of ''C'' [''B'']]"
  by (simp add: topologicalSort_def linear_pipeline_def stage_of_def build_graph_step_def
        graph_push_def visit_dependent_def dependents_def decrement_def Let_def)


lemma scenario_hash:
  "computeHash plain_digest scenario_input = Inr (''sha256:'' @ json_text scenario_input)"
  by (simp add: computeHash_def json_stringify_def plain_digest_def scenario_input_def)

lemma scenario_after_A:
  "map_option ls_outputs (stages_completed scenario_frame [stage_of ''A'' []] scenario_start)
     = Some [(''input'', scenario_input), (''A'', scenario_input)]"
  by code_simp

lemma raising_agent_result:
  "raising_agent ''B'' scenario_input c
     = Inr (failure [''stage logic raised''] 0 (''sha256:'' @ json_text scenario_input))"
  by (simp add: raising_agent_def BaseAgent_run_def scenario_hash has_schema_def scenario_config_def)

theorem run_fails_fast_witness:
  "\<exists>r w'. run ''run-1'' ticking plain_digest scenario_agents linear_pipeline scenario_input None
              fresh_world = (Inr r, w')
      \<and> pr_success r = False \<and> pr_failedAt r = Some ''B''
      \<and> pr_errors r = Some [''stage logic raised''] \<and> pr_outputs r = []"
proof -
  obtain st where st: "stages_completed scenario_frame [stage_of ''A'' []] scenario_start = Some st"
      "ls_outputs st = [(''input'', scenario_input), (''A'', scenario_input)]"
    using scenario_after_A by auto
  have inp: "resolveInputs (stage_of ''B'' [''A'']) (ls_outputs st) = scenario_input"
    by (simp add: st(2) resolveInputs_def stage_of_def outputs_get_def)
  have ag: "map_of scenario_agents (agentId (stage_of ''B'' [''A''])) = Some (raising_agent ''B'')"
    by (simp add: scenario_agents_def stage_of_def)
  have res: "raising_agent ''B'' (resolveInputs (stage_of ''B'' [''A'']) (ls_outputs st))
        \<lparr> ctx_runId = ''run-1'', ctx_timestamp = fst (now ticking fresh_world),
          previousOutputs = ls_outputs st, verbose = None \<rparr>
      = Inr (failure [''stage logic raised''] 0 (''sha256:'' @ json_text scenario_input))"
    unfolding inp by (rule raising_agent_result)
  have nf: "\<not> ar_success (failure [''stage logic raised''] 0 (''sha256:'' @ json_text scenario_input))"
    by (simp add: failure_def)
  show ?thesis
    using run_fails_fast[OF scenario_hash linear_pipeline_order
        st(1)[unfolded scenario_frame_def scenario_start_def] ag res nf]
    by (simp add: stage_of_def failure_def)
qed

text \<open>
  Claim C1 as stated fails: in scenario B the run fails at \<open>B\<close>, and the returned map
  has no entry under \<open>input\<close> and none under \<open>A\<close>.
\<close>

theorem failed_run_returns_empty_map:
  "map_sum id pr_failedAt (fst scenario_B) = Inr (Some ''B'')
   \<and> map_sum id (\<lambda>r. map_of (pr_outputs r) ''input'') (fst scenario_B) = Inr None
   \<and> map_sum id (\<lambda>r. map_of (pr_outputs r) ''A'') (fst scenario_B) = Inr None"
  by code_simp

text \<open>
  Claim C2 fails on the code. A gate check attached to \<open>A\<close> raises: the fault leaves
  \<open>run\<close>, which returns no result; the log ends with the start of \<open>A\<close>, so \<open>B\<close> is
  never started and the fault is not logged; no audit is saved.
\<close>

theorem gate_check_fault_leaves_run:
  "map_sum id pr_success (fst scenario_raising_check) = Inl (Fault ''check raised'')
   \<and> map le_message (log_file (snd scenario_raising_check))
       = [''Pipeline started'', ''Starting'']
   \<and> map le_agentId (log_file (snd scenario_raising_check)) = [None, Some ''A'']
   \<and> run_file (snd scenario_raising_check) = []"
  by code_simp

text \<open>
  Claim C5 fails on the code. On each abort path (a stage fails in scenario B, a gate
  check reports an error in scenario C, an agent is missing) the run returns an audit
  marked failed that covers the stages executed so far, and \<open>failedAt\<close> names the stage
  or the stage's gate; but nothing is written to \<^verbatim>\<open>audit/run.json\<close>. In scenario A,
  where the run succeeds, the audit is written once.
\<close>

theorem failed_run_audit_not_saved:
  "map_sum id (\<lambda>r. (ra_overallStatus (pr_audit r), map as_agentId (ra_stages (pr_audit r)), pr_failedAt r))
       (fst scenario_B) = Inr (StatusFailed, [''A'', ''B''], Some ''B'')
   \<and> run_file (snd scenario_B) = []
   \<and> map_sum id (\<lambda>r. (ra_overallStatus (pr_audit r), map as_agentId (ra_stages (pr_audit r)), pr_failedAt r))
       (fst scenario_C) = Inr (StatusFailed, [''A''], Some ''A:gate'')
   \<and> run_file (snd scenario_C) = []
   \<and> map_sum id (\<lambda>r. (ra_overallStatus (pr_audit r), map as_agentId (ra_stages (pr_audit r)), pr_failedAt r))
       (fst scenario_missing_agent) = Inr (StatusFailed, [''A''], Some ''B'')
   \<and> run_file (snd scenario_missing_agent) = []
   \<and> map_sum id (\<lambda>r. ra_overallStatus (pr_audit r)) (fst scenario_A) = Inr StatusSuccess
   \<and> map ra_overallStatus (run_file (snd scenario_A)) = [StatusSuccess]"
  by code_simp

section \<open>Properties of the scaffold builder\<close>

text \<open>
  Claim C6 fails on the code. On one and the same input the scaffold builder puts the
  hexadecimal digits of the run id into the \<open>id\<close> of its output, so in two runs the
  outputs differ, and so do the texts that \<open>computeHash\<close> digests.
\<close>

theorem scaffold_output_depends_on_runId:
  "map_sum id (\<lambda>v. opt_prop v ''id'')
      (ScaffoldBuilderAgent_execute scaffold_input (context_of ''0b9e6a52-7c1d-4e8f-9a3b-2d5c8f1e4a70''))
     = Inr (JStr ''buildplan-0b9e6a527c1d4e8f9a3b2d5c8f1e4a70'')
   \<and> map_sum id (\<lambda>v. opt_prop v ''id'')
      (ScaffoldBuilderAgent_execute scaffold_input (context_of ''c4d1f0a8-35b2-4f6e-8d97-6e1a0b3c5d29''))
     = Inr (JStr ''buildplan-c4d1f0a835b24f6e8d976e1a0b3c5d29'')
   \<and> map_sum id json_stringify
      (ScaffoldBuilderAgent_execute scaffold_input (context_of ''0b9e6a52-7c1d-4e8f-9a3b-2d5c8f1e4a70''))
     \<noteq> map_sum id json_stringify
      (ScaffoldBuilderAgent_execute scaffold_input (context_of ''c4d1f0a8-35b2-4f6e-8d97-6e1a0b3c5d29''))"
  by code_simp

end
